theory Spec2Isabelle
  imports Main "HOL-Library.Sublist"
begin

text \<open>
  A model of the scraper of \<open>office_scraper.py\<close>: the text normalizer \<open>clean_text\<close> (the
  same function in \<open>simple_scraper.py\<close>), the URL resolver, the page crawler, the document
  extractors and the orchestrator, followed by the properties proved of them. The
  definitions come first: strings and the regular expressions of the normalizer, the
  libraries the program calls, the operations of the program, a reference model of
  \<open>urllib.parse\<close> and the environments of the examples.
\<close>

section \<open>Strings\<close>

text \<open>
  A Python \<open>str\<close> is a sequence of Unicode code points and \<open>len\<close> counts code points,
  so a string is modelled as a list of code points (natural numbers). \<open>str\<close> embeds an
  ASCII literal.
\<close>

type_synonym codepoint = nat
type_synonym pystr = "codepoint list"

definition str :: "string \<Rightarrow> pystr" where
  "str s = map of_char s"

text \<open>
  The whitespace of \<open>str.isspace\<close>, \<open>str.strip()\<close> and of the classes \<open>\s\<close>, \<open>\S\<close>
  in a \<open>str\<close> pattern: U+0009..U+000D, U+001C..U+0020, U+0085, U+00A0, U+1680,
  U+2000..U+200A, U+2028, U+2029, U+202F, U+205F and U+3000.
\<close>

definition is_space :: "codepoint \<Rightarrow> bool" where
  "is_space c \<longleftrightarrow>
     (9 \<le> c \<and> c \<le> 13) \<or> (28 \<le> c \<and> c \<le> 32) \<or> c = 133 \<or> c = 160 \<or> c = 5760 \<or>
     (8192 \<le> c \<and> c \<le> 8202) \<or> c = 8232 \<or> c = 8233 \<or> c = 8239 \<or> c = 8287 \<or>
     c = 12288"

definition strip :: "pystr \<Rightarrow> pystr" where
  \<comment> \<open>\<open>text.strip()\<close>: whitespace removed at both ends\<close>
  "strip s = rev (dropWhile is_space (rev (dropWhile is_space s)))"

section \<open>The regular expressions of \<open>clean_text\<close>\<close>

text \<open>
  The five patterns of \<open>clean_text\<close> are sequences of single-character items: a literal,
  \<open>\s\<close> or \<open>\S\<close>, taken once, optionally (\<open>?\<close>) or at least \<open>n\<close> times (\<open>+\<close> is
  \<open>{1,}\<close>). Python's \<open>re\<close> is a backtracking matcher: a greedy quantifier first takes as
  many characters as it can and gives them back one at a time while the rest of the pattern
  fails. \<open>re_match p s\<close> matches \<open>p\<close> at the head of \<open>s\<close> in that order and returns what
  follows the match.
\<close>

datatype cclass = Lit codepoint | Space | NonSpace

fun accepts :: "cclass \<Rightarrow> codepoint \<Rightarrow> bool" where
  "accepts (Lit a) c = (c = a)"
| "accepts Space c = is_space c"
| "accepts NonSpace c = (\<not> is_space c)"

datatype item = One cclass | Opt cclass | AtLeast nat cclass

type_synonym pattern = "item list"

function re_match :: "pattern \<Rightarrow> pystr \<Rightarrow> pystr option" where
  "re_match [] s = Some s"
| "re_match (One k # p) [] = None"
| "re_match (One k # p) (c # cs) = (if accepts k c then re_match p cs else None)"
| "re_match (Opt k # p) [] = re_match p []"
| "re_match (Opt k # p) (c # cs) =
     (if accepts k c
      then (case re_match p cs of Some r \<Rightarrow> Some r | None \<Rightarrow> re_match p (c # cs))
      else re_match p (c # cs))"
| "re_match (AtLeast n k # p) [] = (if n = 0 then re_match p [] else None)"
| "re_match (AtLeast n k # p) (c # cs) =
     (if accepts k c
      then (case re_match (AtLeast (n - 1) k # p) cs of
              Some r \<Rightarrow> Some r
            | None \<Rightarrow> if n = 0 then re_match p (c # cs) else None)
      else if n = 0 then re_match p (c # cs) else None)"
  by pat_completeness auto
termination
  by (relation "measures [\<lambda>(p, s). length p, \<lambda>(p, s). length s]") auto

text \<open>
  \<open>re.search(p, s)\<close> finds a match at some position of \<open>s\<close>; \<open>re.sub(p, repl, s)\<close>
  replaces the leftmost non-overlapping matches, scanning from the left and resuming after
  each match. None of the patterns below matches the empty string; a match that consumes
  nothing is passed over as no match.
\<close>

fun re_search :: "pattern \<Rightarrow> pystr \<Rightarrow> bool" where
  "re_search p [] = (re_match p [] \<noteq> None)"
| "re_search p (c # cs) = (re_match p (c # cs) \<noteq> None \<or> re_search p cs)"

function re_sub :: "pattern \<Rightarrow> pystr \<Rightarrow> pystr \<Rightarrow> pystr" where
  "re_sub p repl [] = []"
| "re_sub p repl (c # cs) =
     (case re_match p (c # cs) of
        None \<Rightarrow> c # re_sub p repl cs
      | Some r \<Rightarrow> if length r \<le> length cs then repl @ re_sub p repl r
                  else c # re_sub p repl cs)"
  by pat_completeness auto
termination
  by (relation "measure (\<lambda>(p, repl, s). length s)") auto

definition lits :: "string \<Rightarrow> pattern" where
  "lits s = map (\<lambda>c. One (Lit (of_char c))) s"

definition url_pattern :: pattern where
  \<comment> \<open>\<^verbatim>\<open>https?://\S+\<close>\<close>
  "url_pattern =
     lits ''http'' @ [Opt (Lit (of_char CHR ''s''))] @ lits ''://'' @ [AtLeast 1 NonSpace]"

definition email_pattern :: pattern where
  \<comment> \<open>\<^verbatim>\<open>\S+@\S+\.\S+\<close>\<close>
  "email_pattern =
     [AtLeast 1 NonSpace, One (Lit (of_char CHR ''@'')), AtLeast 1 NonSpace,
      One (Lit (of_char CHR ''.'')), AtLeast 1 NonSpace]"

definition none_pattern :: pattern where
  \<comment> \<open>\<^verbatim>\<open>None\<close>\<close>
  "none_pattern = lits ''None''"

definition whitespace_pattern :: pattern where
  \<comment> \<open>\<^verbatim>\<open>\s+\<close>\<close>
  "whitespace_pattern = [AtLeast 1 Space]"

definition long_word_pattern :: pattern where
  \<comment> \<open>\<^verbatim>\<open>\S{50,}\<close>\<close>
  "long_word_pattern = [AtLeast 50 NonSpace]"

section \<open>The text normalizer\<close>

definition clean_text :: "pystr \<Rightarrow> pystr" where
  "clean_text text =
     (let text = re_sub url_pattern [] text;
          text = re_sub email_pattern [] text;
          text = re_sub none_pattern [] text;
          text = re_sub whitespace_pattern (str '' '') text;
          text = re_sub long_word_pattern [] text
      in strip text)"

text \<open>
  The whitespace-delimited tokens of a string: the pieces between consecutive whitespace
  characters (\<open>re.split(r'\s', s)\<close>), empty ones included.
\<close>

fun tokens :: "pystr \<Rightarrow> pystr list" where
  "tokens [] = [[]]"
| "tokens (c # cs) =
     (if is_space c then [] # tokens cs
      else (case tokens cs of [] \<Rightarrow> [[c]] | t # ts \<Rightarrow> (c # t) # ts))"

section \<open>Notions for reasoning about the patterns\<close>

text \<open>
  The least number of characters a match of a pattern consumes; the patterns that accept
  no whitespace character, whose matches therefore lie inside one token; the shape
  \<open>non-whitespace@non-whitespace.non-whitespace\<close> of the email pattern; the patterns that end in a
  greedy run of non-whitespace, whose matches reach the end of the token; and the token
  invariants that the normalizer establishes.
\<close>

fun min_length :: "pattern \<Rightarrow> nat" where
  "min_length [] = 0"
| "min_length (One k # p) = 1 + min_length p"
| "min_length (Opt k # p) = min_length p"
| "min_length (AtLeast n k # p) = n + min_length p"

fun no_space_class :: "cclass \<Rightarrow> bool" where
  "no_space_class (Lit a) = (\<not> is_space a)"
| "no_space_class Space = False"
| "no_space_class NonSpace = True"

fun word_pattern :: "pattern \<Rightarrow> bool" where
  "word_pattern [] = True"
| "word_pattern (One k # p) = (no_space_class k \<and> word_pattern p)"
| "word_pattern (Opt k # p) = (no_space_class k \<and> word_pattern p)"
| "word_pattern (AtLeast n k # p) = (no_space_class k \<and> word_pattern p)"

definition email_shaped :: "pystr \<Rightarrow> bool" where
  "email_shaped t \<longleftrightarrow>
     (\<forall>x \<in> set t. \<not> is_space x) \<and>
     (\<exists>a b c. t = a @ 64 # b @ 46 # c \<and> a \<noteq> [] \<and> b \<noteq> [] \<and> c \<noteq> [])"

definition email_free :: "pystr \<Rightarrow> bool" where
  "email_free s \<longleftrightarrow> (\<forall>t \<in> set (tokens s). \<not> email_shaped t)"

definition short_words :: "pystr \<Rightarrow> bool" where
  "short_words s \<longleftrightarrow> (\<forall>t \<in> set (tokens s). length t < 50)"



section \<open>The outside world\<close>

text \<open>
  The program calls libraries that are not part of the repository: \<open>urllib.parse\<close>,
  \<open>requests\<close>, BeautifulSoup, the document parsers and the browser-driven search. Their
  results, and the outcome of writing a line to the standard output, are the fields of an
  environment that every operation takes as its first argument; a call that raises
  returns the exception as a value.
\<close>

datatype py_error =
  Timeout | ConnectionError | HTTPError nat | ValueError | UnicodeEncodeError | OtherError

record parse_result =
  scheme :: pystr
  netloc :: pystr
  path :: pystr
  params :: pystr
  query :: pystr
  fragment :: pystr

type_synonym bytes = "nat list"

record response =
  status_code :: nat
  content_type_header :: "pystr option"
  "text" :: pystr
  content_bytes :: bytes

record soup =
  get_text :: pystr
  hrefs :: "pystr list"

datatype cell_value = IntValue int | StrValue pystr | BoolValue bool

type_synonym worksheet = "cell_value option list list"
type_synonym workbook = "(pystr \<times> worksheet) list"

record docx_document =
  paragraphs :: "pystr list"
  tables :: "pystr list list list"

type_synonym presentation = "pystr option list list"

record env =
  urlparse :: "pystr \<Rightarrow> py_error + parse_result"
  urljoin :: "pystr \<Rightarrow> pystr \<Rightarrow> py_error + pystr"
  requests_get :: "pystr \<Rightarrow> nat \<Rightarrow> py_error + response"
  beautiful_soup :: "pystr \<Rightarrow> py_error + soup"
  pdf_pages :: "bytes \<Rightarrow> py_error + pystr list"
  docx_load :: "bytes \<Rightarrow> py_error + docx_document"
  xlsx_load :: "bytes \<Rightarrow> py_error + workbook"
  pptx_load :: "bytes \<Rightarrow> py_error + presentation"
  google_search :: "pystr \<Rightarrow> nat \<Rightarrow> pystr list"
  print :: "pystr \<Rightarrow> py_error + unit"
  error_text :: "py_error \<Rightarrow> pystr"

text \<open>
  \<^item> \<open>requests_get e url t\<close> is \<open>requests.get(url, timeout=t, headers=...)\<close>: the final
    response with its status code, its \<open>Content-Type\<close> header when it has one, its decoded
    text and its bytes (\<open>response.content\<close>), or the exception raised (timeout, connection
    error, invalid URL, too many redirects).
  \<^item> \<open>beautiful_soup\<close> parses a body; the result gives the page text after the \<open>script\<close>
    and \<open>style\<close> elements are removed (\<open>get_text(separator=" ", strip=True)\<close>) and
    \<open>a['href']\<close> for the anchors of \<open>find_all('a', href=True)\<close>, in document order.
  \<^item> The four loaders stand for \<open>fitz.open\<close> (the text of each page), \<open>docx.Document\<close>,
    \<open>openpyxl.load_workbook\<close> and \<open>Presentation\<close> on the downloaded bytes, written to
    a temporary file in between.
  \<^item> A workbook lists its sheets by title in \<open>sheetnames\<close> order; a cell holds \<open>None\<close>, an
    integer, a string or a boolean. A slide lists, for each shape, its text when it has one.
  \<^item> \<open>print e line\<close> is \<open>print(line)\<close>: the line is encoded and written to the standard
    output, and the call raises when that fails (\<open>UnicodeEncodeError\<close> for a character
    the encoding of the output does not have). \<open>error_text e err\<close> is \<open>str(err)\<close>, the
    text an f-string puts in for the exception \<open>err\<close>.
\<close>

definition raise_for_status :: "response \<Rightarrow> py_error + unit" where
  \<comment> \<open>\<open>response.raise_for_status()\<close> of \<open>requests\<close>: \<open>HTTPError\<close> for a 4xx or 5xx status\<close>
  "raise_for_status r =
     (if 400 \<le> status_code r \<and> status_code r < 600 then Inl (HTTPError (status_code r))
      else Inr ())"

section \<open>String helpers\<close>

fun contains :: "pystr \<Rightarrow> pystr \<Rightarrow> bool" where
  \<comment> \<open>\<open>needle in hay\<close>\<close>
  "contains needle [] = (needle = [])"
| "contains needle (c # cs) = (prefix needle (c # cs) \<or> contains needle cs)"

definition endswith :: "pystr \<Rightarrow> pystr \<Rightarrow> bool" where
  "endswith s ext = suffix ext s"

definition lower :: "pystr \<Rightarrow> pystr" where
  \<comment> \<open>\<open>s.lower()\<close> on the letters A to Z. The result is only searched for the ASCII
      needles below, and no other character lower-cases into an occurrence of one of them
      (U+0130 gives \<open>i\<close> followed by U+0307, U+212A gives \<open>k\<close>).\<close>
  "lower s = map (\<lambda>c. if 65 \<le> c \<and> c \<le> 90 then c + 32 else c) s"

fun join :: "pystr \<Rightarrow> pystr list \<Rightarrow> pystr" where
  \<comment> \<open>\<open>sep.join(xs)\<close>\<close>
  "join sep [] = []"
| "join sep [x] = x"
| "join sep (x # y # ys) = x @ sep @ join sep (y # ys)"

section \<open>URL resolver\<close>

definition is_valid_url :: "env \<Rightarrow> pystr \<Rightarrow> bool" where
  "is_valid_url e url =
     (case urlparse e url of
        Inl err \<Rightarrow> False
      | Inr result \<Rightarrow> scheme result \<noteq> [] \<and> netloc result \<noteq> [])"

definition normalize_url :: "env \<Rightarrow> pystr \<Rightarrow> pystr \<Rightarrow> py_error + pystr" where
  "normalize_url e base_url url =
     (if is_valid_url e url then Inr url else urljoin e base_url url)"

section \<open>Page crawler\<close>

definition document_mime_types :: "pystr list" where
  "document_mime_types =
     [str ''application/pdf'', str ''application/vnd.openxmlformats-officedocument'',
      str ''application/msword'']"

definition document_extensions :: "pystr list" where
  "document_extensions =
     [str ''.pdf'', str ''.txt'', str ''.doc'', str ''.docx'', str ''.xls'', str ''.xlsx'',
      str ''.ppt'', str ''.pptx'']"

text \<open>
  The loop over the anchors: an exception of \<open>normalize_url\<close> leaves the loop and reaches
  the handler of \<open>crawl_page\<close>.
\<close>

fun collect_links :: "env \<Rightarrow> pystr \<Rightarrow> pystr list \<Rightarrow> py_error + pystr list" where
  "collect_links e url [] = Inr []"
| "collect_links e url (href # anchors) =
     (case normalize_url e url href of
        Inl err \<Rightarrow> Inl err
      | Inr full_url \<Rightarrow>
          (case collect_links e url anchors of
             Inl err \<Rightarrow> Inl err
           | Inr links \<Rightarrow>
               Inr (if full_url \<noteq> [] \<and> is_valid_url e full_url then full_url # links
                    else links)))"

definition is_downloadable :: "pystr \<Rightarrow> bool" where
  "is_downloadable link = list_ex (\<lambda>ext. endswith (lower link) ext) document_extensions"

text \<open>
  \<open>crawl_page\<close> prints a log line and then runs its body inside \<open>try\<close>.
  \<open>crawl_page_try\<close> is that body: \<open>Inr\<close> is the pair it returns, \<open>Inl\<close> an exception
  raised in it, which reaches the handler. The first \<open>print\<close> stands before the \<open>try\<close>
  and the second one inside the handler, so an exception of either leaves \<open>crawl_page\<close>.
\<close>

definition crawl_page_try :: "env \<Rightarrow> pystr \<Rightarrow> py_error + pystr \<times> pystr list" where
  "crawl_page_try e url =
     (case requests_get e url 15 of
        Inl err \<Rightarrow> Inl err
      | Inr response \<Rightarrow>
          (case raise_for_status response of
             Inl err \<Rightarrow> Inl err
           | Inr ok \<Rightarrow>
               let content_type =
                     lower (case content_type_header response of None \<Rightarrow> [] | Some v \<Rightarrow> v)
               in if list_ex (\<lambda>ct. contains ct content_type) document_mime_types
                  then Inr ([], [url])
                  else if contains (str ''text/plain'') content_type then Inr (text response, [])
                  else (case beautiful_soup e (text response) of
                          Inl err \<Rightarrow> Inl err
                        | Inr page \<Rightarrow>
                            (case collect_links e url (hrefs page) of
                               Inl err \<Rightarrow> Inl err
                             | Inr links \<Rightarrow>
                                 Inr (get_text page, filter is_downloadable links)))))"

definition crawl_page :: "env \<Rightarrow> pystr \<Rightarrow> py_error + pystr \<times> pystr list" where
  "crawl_page e url =
     (case print e (str ''Crawling '' @ url) of
        Inl err \<Rightarrow> Inl err
      | Inr ok \<Rightarrow>
          (case crawl_page_try e url of
             Inr result \<Rightarrow> Inr result
           | Inl err \<Rightarrow>
               (case print e (str ''Error crawling '' @ url @ str '': '' @ error_text e err) of
                  Inl err' \<Rightarrow> Inl err'
                | Inr ok \<Rightarrow> Inr ([], []))))"

section \<open>Document extractors\<close>

text \<open>
  An extractor downloads a document and parses it inside \<open>try\<close>, and returns the empty
  string when the download or the parser raises. It is modelled by the text it returns;
  its log lines are not part of the model.
\<close>

function digits :: "nat \<Rightarrow> pystr" where
  "digits n = (if n < 10 then [48 + n] else digits (n div 10) @ [48 + n mod 10])"
  by pat_completeness auto
termination
  by (relation "measure id") auto

definition str_of_value :: "cell_value \<Rightarrow> pystr" where
  \<comment> \<open>\<open>str(cell.value)\<close>\<close>
  "str_of_value v =
     (case v of
        IntValue i \<Rightarrow> (if i < 0 then 45 # digits (nat (- i)) else digits (nat i))
      | StrValue s \<Rightarrow> s
      | BoolValue b \<Rightarrow> (if b then str ''True'' else str ''False''))"

definition download :: "env \<Rightarrow> pystr \<Rightarrow> py_error + bytes" where
  \<comment> \<open>\<open>requests.get(url, stream=True, timeout=30, ...)\<close>, \<open>raise_for_status()\<close>, \<open>r.content\<close>\<close>
  "download e url =
     (case requests_get e url 30 of
        Inl err \<Rightarrow> Inl err
      | Inr r \<Rightarrow> (case raise_for_status r of Inl err \<Rightarrow> Inl err | Inr ok \<Rightarrow> Inr (content_bytes r)))"

definition extract_pdf_text :: "env \<Rightarrow> pystr \<Rightarrow> pystr" where
  "extract_pdf_text e url =
     (case download e url of
        Inl err \<Rightarrow> []
      | Inr content \<Rightarrow>
          (case pdf_pages e content of Inl err \<Rightarrow> [] | Inr pages \<Rightarrow> concat pages))"

definition docx_text :: "docx_document \<Rightarrow> pystr" where
  "docx_text doc =
     join (str ''\<newline>'') (paragraphs doc) @
     concat (map (\<lambda>table.
       concat (map (\<lambda>row. concat (map (\<lambda>cell. cell @ str '' '') row) @ str ''\<newline>'') table))
       (tables doc))"

definition extract_docx_text :: "env \<Rightarrow> pystr \<Rightarrow> pystr" where
  "extract_docx_text e url =
     (case download e url of
        Inl err \<Rightarrow> []
      | Inr content \<Rightarrow>
          (case docx_load e content of Inl err \<Rightarrow> [] | Inr doc \<Rightarrow> docx_text doc))"

definition row_text :: "cell_value option list \<Rightarrow> pystr" where
  "row_text row =
     join (str '' | '') (map (\<lambda>cell. case cell of None \<Rightarrow> [] | Some v \<Rightarrow> str_of_value v) row)"

definition sheet_text :: "worksheet \<Rightarrow> pystr" where
  "sheet_text sheet =
     concat (map (\<lambda>row. if strip (row_text row) \<noteq> [] then row_text row @ str ''\<newline>'' else [])
       sheet)"

text \<open>
  The loop over \<open>workbook.sheetnames\<close>; \<open>workbook[sheet_name]\<close> looks the sheet up by its
  title and raises \<open>KeyError\<close> when there is none.
\<close>

fun workbook_text :: "workbook \<Rightarrow> pystr list \<Rightarrow> pystr option" where
  "workbook_text wb [] = Some []"
| "workbook_text wb (sheet_name # names) =
     (case map_of wb sheet_name of
        None \<Rightarrow> None
      | Some sheet \<Rightarrow>
          (case workbook_text wb names of
             None \<Rightarrow> None
           | Some rest \<Rightarrow>
               Some (str ''Sheet: '' @ sheet_name @ str ''\<newline>'' @ sheet_text sheet @ rest)))"

definition extract_xlsx_text :: "env \<Rightarrow> pystr \<Rightarrow> pystr" where
  "extract_xlsx_text e url =
     (case download e url of
        Inl err \<Rightarrow> []
      | Inr content \<Rightarrow>
          (case xlsx_load e content of
             Inl err \<Rightarrow> []
           | Inr wb \<Rightarrow>
               (case workbook_text wb (map fst wb) of None \<Rightarrow> [] | Some t \<Rightarrow> t)))"

fun slides_text :: "nat \<Rightarrow> presentation \<Rightarrow> pystr" where
  "slides_text i [] = []"
| "slides_text i (slide # slides) =
     str ''Slide '' @ digits (i + 1) @ str '':\<newline>'' @
     concat (map (\<lambda>shape. case shape of None \<Rightarrow> [] | Some t \<Rightarrow> t @ str ''\<newline>'') slide) @
     str ''\<newline>'' @ slides_text (i + 1) slides"

definition extract_pptx_text :: "env \<Rightarrow> pystr \<Rightarrow> pystr" where
  "extract_pptx_text e url =
     (case download e url of
        Inl err \<Rightarrow> []
      | Inr content \<Rightarrow>
          (case pptx_load e content of Inl err \<Rightarrow> [] | Inr prs \<Rightarrow> slides_text 0 prs))"

definition extract_txt_text :: "env \<Rightarrow> pystr \<Rightarrow> pystr" where
  "extract_txt_text e url =
     (case requests_get e url 15 of
        Inl err \<Rightarrow> []
      | Inr r \<Rightarrow> (case raise_for_status r of Inl err \<Rightarrow> [] | Inr ok \<Rightarrow> text r))"

definition extract_document_text :: "env \<Rightarrow> pystr \<Rightarrow> pystr" where
  "extract_document_text e url =
     (let url_lower = lower url
      in if endswith url_lower (str ''.pdf'') then extract_pdf_text e url
         else if endswith url_lower (str ''.txt'') then extract_txt_text e url
         else if endswith url_lower (str ''.docx'') then extract_docx_text e url
         else if endswith url_lower (str ''.xlsx'') then extract_xlsx_text e url
         else if endswith url_lower (str ''.pptx'') then extract_pptx_text e url
         else if endswith url_lower (str ''.doc'') then []
         else if endswith url_lower (str ''.xls'') then []
         else if endswith url_lower (str ''.ppt'') then []
         else [])"

section \<open>Pipeline orchestrator\<close>

record content_record =
  url :: pystr
  content :: pystr

text \<open>
  \<open>process_url\<close> has no handler of its own: an exception that leaves \<open>crawl_page\<close> leaves
  \<open>process_url\<close>, and then \<open>main\<close>, too. \<open>combined_text\<close> is the text \<open>process_url\<close>
  hands to \<open>clean_text\<close>. \<open>main\<close> is modelled by the sequence of records it returns; the
  progress lines it prints and the JSON file it writes are not part of the model.
\<close>

definition combined_text :: "env \<Rightarrow> pystr \<Rightarrow> py_error + pystr" where
  "combined_text e u =
     (case crawl_page e u of
        Inl err \<Rightarrow> Inl err
      | Inr (page_text, downloadables) \<Rightarrow>
          let document_texts = filter (\<lambda>doc_text. doc_text \<noteq> [])
                                 (map (extract_document_text e) downloadables)
          in Inr (if document_texts \<noteq> []
                  then page_text @ str ''\<newline>'' @ join (str ''\<newline>'') document_texts
                  else page_text))"

definition process_url :: "env \<Rightarrow> pystr \<Rightarrow> py_error + content_record" where
  "process_url e u =
     (case combined_text e u of
        Inl err \<Rightarrow> Inl err
      | Inr combined \<Rightarrow> Inr \<lparr>url = u, content = take 10000 (clean_text combined)\<rparr>)"

fun gather :: "(py_error + 'a) list \<Rightarrow> py_error + 'a list" where
  \<comment> \<open>\<open>asyncio.gather(*tasks)\<close>: the results in the order of the tasks, or the first
      exception that a task raises\<close>
  "gather [] = Inr []"
| "gather (task # tasks) =
     (case task of
        Inl err \<Rightarrow> Inl err
      | Inr result \<Rightarrow>
          (case gather tasks of Inl err \<Rightarrow> Inl err | Inr results \<Rightarrow> Inr (result # results)))"

definition main :: "env \<Rightarrow> pystr \<Rightarrow> nat \<Rightarrow> py_error + content_record list" where
  "main e query_string num_results =
     (let urls = google_search e query_string num_results
      in case gather (map (process_url e) urls) of
           Inl err \<Rightarrow> Inl err
         | Inr results \<Rightarrow> Inr (filter (\<lambda>r. content r \<noteq> []) results))"

section \<open>A reference model of \<open>urllib.parse\<close>\<close>

text \<open>
  The theorems below hold for every environment. The concrete examples need one: this is
  \<open>urlsplit\<close>, \<open>urlparse\<close>, \<open>urlunparse\<close> and \<open>urljoin\<close> of CPython 3.12 on ASCII URLs
  whose host is not a bracketed IP literal (the NFKC check of a non-ASCII host and the
  validation of a bracketed host are left out).
\<close>

definition uses_relative :: "pystr list" where
  "uses_relative = map str
     ['''', ''ftp'', ''http'', ''gopher'', ''nntp'', ''imap'', ''wais'', ''file'', ''https'',
      ''shttp'', ''mms'', ''prospero'', ''rtsp'', ''rtspu'', ''sftp'', ''svn'', ''svn+ssh'',
      ''ws'', ''wss'']"

definition uses_netloc :: "pystr list" where
  "uses_netloc = map str
     ['''', ''ftp'', ''http'', ''gopher'', ''nntp'', ''telnet'', ''imap'', ''wais'', ''file'',
      ''mms'', ''https'', ''shttp'', ''snews'', ''prospero'', ''rtsp'', ''rtspu'', ''rsync'',
      ''svn'', ''svn+ssh'', ''sftp'', ''nfs'', ''git'', ''git+ssh'', ''ws'', ''wss'']"

definition uses_params :: "pystr list" where
  "uses_params = map str
     ['''', ''ftp'', ''hdl'', ''prospero'', ''http'', ''imap'', ''https'', ''shttp'', ''rtsp'',
      ''rtspu'', ''sip'', ''sips'', ''mms'', ''sftp'', ''tel'']"

definition is_ascii_alpha :: "codepoint \<Rightarrow> bool" where
  "is_ascii_alpha c \<longleftrightarrow> (65 \<le> c \<and> c \<le> 90) \<or> (97 \<le> c \<and> c \<le> 122)"

definition is_scheme_char :: "codepoint \<Rightarrow> bool" where
  \<comment> \<open>letters, digits and \<open>+-.\<close>\<close>
  "is_scheme_char c \<longleftrightarrow>
     is_ascii_alpha c \<or> (48 \<le> c \<and> c \<le> 57) \<or> c = 43 \<or> c = 45 \<or> c = 46"

definition cut_at :: "codepoint \<Rightarrow> pystr \<Rightarrow> pystr \<times> pystr" where
  \<comment> \<open>\<open>s.split(c, 1)\<close> when \<open>c in s\<close>, and \<open>(s, '')\<close> otherwise\<close>
  "cut_at c s = (takeWhile (\<lambda>x. x \<noteq> c) s, drop 1 (dropWhile (\<lambda>x. x \<noteq> c) s))"

definition strip_url :: "pystr \<Rightarrow> pystr" where
  \<comment> \<open>leading C0 control characters and spaces are stripped, then tab, newline and
      carriage return are removed everywhere\<close>
  "strip_url u = filter (\<lambda>c. c \<noteq> 9 \<and> c \<noteq> 10 \<and> c \<noteq> 13) (dropWhile (\<lambda>c. c \<le> 32) u)"

definition strip_scheme :: "pystr \<Rightarrow> pystr" where
  "strip_scheme s =
     filter (\<lambda>c. c \<noteq> 9 \<and> c \<noteq> 10 \<and> c \<noteq> 13)
       (rev (dropWhile (\<lambda>c. c \<le> 32) (rev (dropWhile (\<lambda>c. c \<le> 32) s))))"

definition has_scheme :: "pystr \<Rightarrow> bool" where
  \<comment> \<open>a colon after a non-empty run of scheme characters that starts with a letter\<close>
  "has_scheme u \<longleftrightarrow>
     58 \<in> set u \<and> takeWhile (\<lambda>c. c \<noteq> 58) u \<noteq> [] \<and>
     is_ascii_alpha (hd (takeWhile (\<lambda>c. c \<noteq> 58) u)) \<and>
     list_all is_scheme_char (takeWhile (\<lambda>c. c \<noteq> 58) u)"

definition split_scheme :: "pystr \<Rightarrow> pystr \<Rightarrow> pystr \<times> pystr" where
  "split_scheme u default_scheme =
     (if has_scheme u
      then (lower (takeWhile (\<lambda>c. c \<noteq> 58) u), drop (length (takeWhile (\<lambda>c. c \<noteq> 58) u) + 1) u)
      else (default_scheme, u))"

definition is_delim :: "codepoint \<Rightarrow> bool" where
  \<comment> \<open>one of \<open>/?#\<close>\<close>
  "is_delim c \<longleftrightarrow> c = 47 \<or> c = 63 \<or> c = 35"

definition split_netloc :: "pystr \<Rightarrow> pystr \<times> pystr" where
  "split_netloc u =
     (if take 2 u = str ''//''
      then (takeWhile (\<lambda>c. \<not> is_delim c) (drop 2 u), dropWhile (\<lambda>c. \<not> is_delim c) (drop 2 u))
      else ([], u))"

definition urlsplit :: "pystr \<Rightarrow> pystr \<Rightarrow> py_error + parse_result" where
  "urlsplit url0 scheme0 =
     (let (scheme2, url2) = split_scheme (strip_url url0) (strip_scheme scheme0);
          (netloc2, url3) = split_netloc url2;
          (url4, fragment4) = cut_at 35 url3;
          (url5, query5) = cut_at 63 url4
      in if (91 \<in> set netloc2) \<noteq> (93 \<in> set netloc2) then Inl ValueError
         else Inr \<lparr>scheme = scheme2, netloc = netloc2, path = url5, params = [],
                   query = query5, fragment = fragment4\<rparr>)"

definition splitparams :: "pystr \<Rightarrow> pystr \<times> pystr" where
  "splitparams u =
     (let k = (if 47 \<in> set u then length u - 1 - length (takeWhile (\<lambda>c. c \<noteq> 47) (rev u))
               else 0)
      in if 59 \<in> set (drop k u)
         then (let i = k + length (takeWhile (\<lambda>c. c \<noteq> 59) (drop k u))
               in (take i u, drop (i + 1) u))
         else (u, []))"

definition std_urlparse :: "pystr \<Rightarrow> pystr \<Rightarrow> py_error + parse_result" where
  "std_urlparse u scheme0 =
     (case urlsplit u scheme0 of
        Inl err \<Rightarrow> Inl err
      | Inr r \<Rightarrow>
          if scheme r \<in> set uses_params \<and> 59 \<in> set (path r)
          then Inr (r\<lparr>path := fst (splitparams (path r)), params := snd (splitparams (path r))\<rparr>)
          else Inr r)"

definition urlunparse :: "parse_result \<Rightarrow> pystr" where
  "urlunparse r =
     (let u1 = (if params r \<noteq> [] then path r @ str '';'' @ params r else path r);
          u2 = (if netloc r \<noteq> [] \<or>
                   (scheme r \<noteq> [] \<and> scheme r \<in> set uses_netloc \<and> take 2 u1 \<noteq> str ''//'')
                then str ''//'' @ netloc r @
                     (if u1 \<noteq> [] \<and> take 1 u1 \<noteq> str ''/'' then str ''/'' @ u1 else u1)
                else u1);
          u3 = (if scheme r \<noteq> [] then scheme r @ str '':'' @ u2 else u2);
          u4 = (if query r \<noteq> [] then u3 @ str ''?'' @ query r else u3)
      in if fragment r \<noteq> [] then u4 @ str ''#'' @ fragment r else u4)"

fun split_on :: "codepoint \<Rightarrow> pystr \<Rightarrow> pystr list" where
  \<comment> \<open>\<open>s.split(c)\<close>\<close>
  "split_on c [] = [[]]"
| "split_on c (x # xs) =
     (if x = c then [] # split_on c xs
      else (case split_on c xs of [] \<Rightarrow> [[x]] | w # ws \<Rightarrow> (x # w) # ws))"

fun resolve_segments :: "pystr list \<Rightarrow> pystr list \<Rightarrow> pystr list" where
  \<comment> \<open>the loop that builds \<open>resolved_path\<close>, the second argument\<close>
  "resolve_segments [] resolved = resolved"
| "resolve_segments (seg # segs) resolved =
     (if seg = str ''..'' then resolve_segments segs (butlast resolved)
      else if seg = str ''.'' then resolve_segments segs resolved
      else resolve_segments segs (resolved @ [seg]))"

definition join_path :: "pystr \<Rightarrow> pystr \<Rightarrow> pystr" where
  "join_path bpath rel =
     (let base_parts0 = split_on 47 bpath;
          base_parts = (if last base_parts0 \<noteq> [] then butlast base_parts0 else base_parts0);
          joined = base_parts @ split_on 47 rel;
          segments =
            (if take 1 rel = str ''/'' then split_on 47 rel
             else if length joined < 2 then joined
             else hd joined # filter (\<lambda>s. s \<noteq> []) (butlast (tl joined)) @ [last joined]);
          resolved = resolve_segments segments [];
          resolved_path =
            (if last segments = str ''.'' \<or> last segments = str ''..'' then resolved @ [[]]
             else resolved);
          joined_path = join (str ''/'') resolved_path
      in if joined_path = [] then str ''/'' else joined_path)"

definition std_urljoin :: "pystr \<Rightarrow> pystr \<Rightarrow> py_error + pystr" where
  "std_urljoin base u =
     (if base = [] then Inr u
      else if u = [] then Inr base
      else
        (case std_urlparse base [] of
           Inl err \<Rightarrow> Inl err
         | Inr b \<Rightarrow>
             (case std_urlparse u (scheme b) of
                Inl err \<Rightarrow> Inl err
              | Inr r \<Rightarrow>
                  if scheme r \<noteq> scheme b \<or> scheme r \<notin> set uses_relative then Inr u
                  else if scheme r \<in> set uses_netloc \<and> netloc r \<noteq> [] then Inr (urlunparse r)
                  else
                    (let r1 = (if scheme r \<in> set uses_netloc then r\<lparr>netloc := netloc b\<rparr>
                               else r)
                     in if path r1 = [] \<and> params r1 = []
                        then Inr (urlunparse
                               (r1\<lparr>path := path b, params := params b,
                                   query := (if query r1 = [] then query b else query r1)\<rparr>))
                        else Inr (urlunparse (r1\<lparr>path := join_path (path b) (path r1)\<rparr>))))))"

text \<open>
  \<open>print\<close> on a standard output encoded in UTF-8 with strict error handling: every
  character is written except the surrogate code points U+D800..U+DFFF, which UTF-8 does
  not encode and for which \<open>print\<close> raises \<open>UnicodeEncodeError\<close>.
\<close>

definition is_surrogate :: "codepoint \<Rightarrow> bool" where
  "is_surrogate c \<longleftrightarrow> 55296 \<le> c \<and> c \<le> 57343"

definition utf8_print :: "pystr \<Rightarrow> py_error + unit" where
  "utf8_print line = (if list_ex is_surrogate line then Inl UnicodeEncodeError else Inr ())"

text \<open>
  An environment over this model: \<open>get\<close> gives the result of fetching a URL and every
  body parses to the same page; no document loads. The standard output is encoded in
  UTF-8 and the text of every exception is the word \<open>failed\<close>.
\<close>

definition std_env :: "(pystr \<Rightarrow> py_error + response) \<Rightarrow> soup \<Rightarrow> pystr list \<Rightarrow> env" where
  "std_env get page seeds =
     \<lparr>urlparse = (\<lambda>u. std_urlparse u []), urljoin = std_urljoin,
      requests_get = (\<lambda>u timeout. get u), beautiful_soup = (\<lambda>body. Inr page),
      pdf_pages = (\<lambda>b. Inl OtherError), docx_load = (\<lambda>b. Inl OtherError),
      xlsx_load = (\<lambda>b. Inl OtherError), pptx_load = (\<lambda>b. Inl OtherError),
      google_search = (\<lambda>q n. seeds), print = utf8_print,
      error_text = (\<lambda>err. str ''failed'')\<rparr>"

text \<open>
  Notions for reasoning about the model: a string without tab, newline and carriage
  return; a scheme as \<open>urlsplit\<close> returns it; a network location as it returns it.
\<close>

definition clean_url :: "pystr \<Rightarrow> bool" where
  "clean_url s \<longleftrightarrow> (\<forall>c \<in> set s. c \<noteq> 9 \<and> c \<noteq> 10 \<and> c \<noteq> 13)"

definition good_scheme :: "pystr \<Rightarrow> bool" where
  "good_scheme s \<longleftrightarrow> s \<noteq> [] \<and> is_ascii_alpha (hd s) \<and> list_all is_scheme_char s \<and> lower s = s"

definition good_netloc :: "pystr \<Rightarrow> bool" where
  "good_netloc n \<longleftrightarrow> n \<noteq> [] \<and> clean_url n \<and> (\<forall>c \<in> set n. \<not> is_delim c) \<and>
     ((91 \<in> set n) = (93 \<in> set n))"

section \<open>Example environments\<close>

text \<open>
  The seed page \<open>https://a.gov/page\<close> is an HTML page whose text is \<open>Annual Report\<close> and
  which links twice to \<open>report.pdf\<close>. \<open>https://a.gov/missing\<close> answers with status 404,
  and the URL \<open>https://a.gov/report.pdf\<close> written after a no-break space (which
  \<open>requests\<close> strips and \<open>urlparse\<close> does not) with a PDF. Every other fetch times out.
\<close>

definition html_response :: "nat \<Rightarrow> response" where
  "html_response status =
     \<lparr>status_code = status, content_type_header = Some (str ''text/html''),
      text = str ''<html>'', content_bytes = []\<rparr>"

definition pdf_response :: response where
  "pdf_response =
     \<lparr>status_code = 200, content_type_header = Some (str ''application/pdf''),
      text = [], content_bytes = []\<rparr>"

definition example_get :: "pystr \<Rightarrow> py_error + response" where
  "example_get u =
     (if u = str ''https://a.gov/page'' then Inr (html_response 200)
      else if u = str ''https://a.gov/missing'' then Inr (html_response 404)
      else if u = 160 # str ''https://a.gov/report.pdf'' then Inr pdf_response
      else Inl Timeout)"

definition example_env :: env where
  "example_env =
     std_env example_get
       \<lparr>get_text = str ''Annual Report'', hrefs = [str ''report.pdf'', str ''report.pdf'']\<rparr>
       [str ''https://a.gov/page'', str ''https://b.gov/'']"

text \<open>
  An environment in which every fetch ends in a response with status 300 (Multiple
  Choices, which \<open>requests\<close> does not follow) and an HTML body without anchors.
\<close>

definition choices_env :: env where
  "choices_env =
     std_env (\<lambda>u. Inr (html_response 300))
       \<lparr>get_text = str ''Multiple Choices'', hrefs = []\<rparr> []"



section \<open>Substitution never lengthens\<close>

lemma length_re_sub: "length repl \<le> 1 \<Longrightarrow> length (re_sub p repl s) \<le> length s"
proof (induction p repl s rule: re_sub.induct)
  case (1 p repl)
  then show ?case by simp
next
  case (2 p repl c cs)
  then show ?case by (auto split: option.splits)
qed

lemma length_strip: "length (strip s) \<le> length s"
proof -
  have "length (strip s) \<le> length (dropWhile is_space s)"
    unfolding strip_def using length_dropWhile_le [of is_space "rev (dropWhile is_space s)"]
    by simp
  also have "\<dots> \<le> length s" by (rule length_dropWhile_le)
  finally show ?thesis .
qed

text \<open>
  C10. For every input string \<open>x\<close>, \<open>clean_text\<close> is length non-increasing:
  \<open>len(clean_text(x)) <= len(x)\<close>. Four steps delete their matches, the whitespace step
  replaces a run of at least one character by one space, and \<open>strip\<close> drops characters at
  the ends.
\<close>

theorem clean_text_length: "length (clean_text x) \<le> length x"
proof -
  let ?a = "re_sub url_pattern [] x"
  let ?b = "re_sub email_pattern [] ?a"
  let ?c = "re_sub none_pattern [] ?b"
  let ?d = "re_sub whitespace_pattern (str '' '') ?c"
  let ?e = "re_sub long_word_pattern [] ?d"
  have "length (clean_text x) \<le> length ?e"
    by (simp add: clean_text_def length_strip)
  also have "\<dots> \<le> length ?d" by (rule length_re_sub) simp
  also have "\<dots> \<le> length ?c" by (rule length_re_sub) (simp add: str_def)
  also have "\<dots> \<le> length ?b" by (rule length_re_sub) simp
  also have "\<dots> \<le> length ?a" by (rule length_re_sub) simp
  also have "\<dots> \<le> length x" by (rule length_re_sub) simp
  finally show ?thesis .
qed

section \<open>The matcher\<close>

text \<open>
  A match consumes at least \<open>min_length\<close> characters and what follows it is a suffix of
  the string; a single greedy run takes the longest run of accepted characters.
\<close>

lemma re_match_length:
  "re_match p s = Some r \<Longrightarrow> length r + min_length p \<le> length s"
proof (induction p s arbitrary: r rule: re_match.induct)
  case (7 n k p c cs)
  show ?case
  proof (cases "accepts k c")
    case True
    show ?thesis
    proof (cases "re_match (AtLeast (n - 1) k # p) cs")
      case None
      with True "7.prems" have "n = 0" "re_match p (c # cs) = Some r"
        by (auto split: if_splits)
      with "7.IH"(2) [OF True None] show ?thesis by simp
    next
      case (Some r')
      with True "7.prems" have "r' = r" by simp
      with "7.IH"(1) [OF True] Some show ?thesis by auto
    qed
  next
    case False
    with "7.prems" have "n = 0" "re_match p (c # cs) = Some r"
      by (auto split: if_splits)
    with "7.IH"(3) [OF False] show ?thesis by simp
  qed
qed (auto split: if_splits option.splits)

lemma re_match_suffix: "re_match p s = Some r \<Longrightarrow> suffix r s"
proof (induction p s arbitrary: r rule: re_match.induct)
  case (7 n k p c cs)
  then show ?case
    by (auto split: if_splits option.splits intro: suffix_ConsI)
qed (auto split: if_splits option.splits intro: suffix_ConsI)

lemma re_match_at_least:
  "re_match [AtLeast n k] s =
     (if n \<le> length (takeWhile (accepts k) s) then Some (dropWhile (accepts k) s) else None)"
proof (induction s arbitrary: n)
  case Nil
  then show ?case by simp
next
  case (Cons c cs)
  show ?case
  proof (cases "accepts k c")
    case True
    then show ?thesis using Cons [of "n - 1"] by (cases n) auto
  next
    case False
    then show ?thesis by simp
  qed
qed

subsection \<open>Patterns without whitespace match inside one token\<close>

text \<open>
  A pattern that accepts no whitespace treats a whitespace character like the end of the
  string, so matching, substitution and search split at every whitespace character.
\<close>

lemma no_space_class_accepts: "no_space_class k \<Longrightarrow> is_space w \<Longrightarrow> \<not> accepts k w"
  by (cases k) auto

lemma re_match_at_space:
  "word_pattern p \<Longrightarrow> is_space w \<Longrightarrow>
   re_match p (w # s) = map_option (\<lambda>r. r @ w # s) (re_match p [])"
proof (induction p)
  case Nil
  then show ?case by simp
next
  case (Cons i p)
  then show ?case
    by (cases i) (auto simp: no_space_class_accepts)
qed

lemma re_match_extend:
  "word_pattern p \<Longrightarrow> is_space w \<Longrightarrow>
   re_match p (t @ w # s) = map_option (\<lambda>r. r @ w # s) (re_match p t)"
proof (induction p t rule: re_match.induct)
  case (1 s')
  then show ?case by simp
next
  case (2 k p)
  then show ?case by (simp add: no_space_class_accepts)
next
  case (3 k p c cs)
  then show ?case by simp
next
  case (4 k p)
  then show ?case using re_match_at_space [of "Opt k # p" w s] by simp
next
  case (5 k p c cs)
  then show ?case by (auto split: option.splits)
next
  case (6 n k p)
  then show ?case using re_match_at_space [of "AtLeast n k # p" w s] by simp
next
  case (7 n k p c cs)
  then show ?case by (auto split: option.splits)
qed

lemma re_sub_extend:
  "word_pattern p \<Longrightarrow> is_space w \<Longrightarrow>
   re_sub p repl (t @ w # s) = re_sub p repl t @ w # re_sub p repl s"
proof (induction p repl t rule: re_sub.induct)
  case (1 p repl)
  then show ?case
    using re_match_at_space [of p w s] re_match_length [of p "[]"]
    by (auto split: option.splits)
next
  case (2 p repl c cs)
  show ?case
  proof (cases "re_match p (c # cs)")
    case None
    with 2 show ?thesis
      using re_match_extend [of p w "c # cs" s] by simp
  next
    case (Some r)
    with 2 show ?thesis
      using re_match_extend [of p w "c # cs" s] by auto
  qed
qed

lemma re_search_extend:
  "word_pattern p \<Longrightarrow> is_space w \<Longrightarrow> re_match p [] = None \<Longrightarrow>
   re_search p (t @ w # s) = (re_search p t \<or> re_search p s)"
proof (induction t)
  case Nil
  then show ?case using re_match_at_space [of p w s] by simp
next
  case (Cons c cs)
  then show ?case using re_match_extend [of p w "c # cs" s] by auto
qed

subsection \<open>Tokens\<close>

text \<open>
  A string is a token, or a token, a whitespace character and a string. Search with a
  pattern without whitespace looks into each token, and substitution by the empty string
  maps over the tokens.
\<close>

lemma tokens_not_Nil: "tokens s \<noteq> []"
  by (induction s) (auto split: list.splits)

lemma tokens_word: "\<forall>c \<in> set t. \<not> is_space c \<Longrightarrow> tokens t = [t]"
  by (induction t) auto

lemma tokens_append: "is_space w \<Longrightarrow> tokens (t @ w # s) = tokens t @ tokens s"
proof (induction t)
  case Nil
  then show ?case by simp
next
  case (Cons c cs)
  then show ?case
    using tokens_not_Nil [of cs] by (cases "tokens cs") auto
qed

lemma space_induct [case_names word space]:
  assumes word: "\<And>t. \<forall>c \<in> set t. \<not> is_space c \<Longrightarrow> Q t"
    and space: "\<And>t w s. \<forall>c \<in> set t. \<not> is_space c \<Longrightarrow> is_space w \<Longrightarrow> Q s \<Longrightarrow> Q (t @ w # s)"
  shows "Q s"
proof (induction s rule: length_induct)
  case (1 s)
  let ?t = "takeWhile (\<lambda>c. \<not> is_space c) s"
  let ?r = "dropWhile (\<lambda>c. \<not> is_space c) s"
  have t: "\<forall>c \<in> set ?t. \<not> is_space c"
    by (auto dest: set_takeWhileD)
  show ?case
  proof (cases ?r)
    case Nil
    then have "s = ?t" by (metis append_Nil2 takeWhile_dropWhile_id)
    with word [OF t] show ?thesis by simp
  next
    case (Cons w s')
    then have w: "is_space w" using hd_dropWhile [of "\<lambda>c. \<not> is_space c" s] by auto
    have s: "s = ?t @ w # s'"
      using Cons takeWhile_dropWhile_id [of "\<lambda>c. \<not> is_space c" s] by simp
    have "length s' < length s"
      using Cons length_dropWhile_le [of "\<lambda>c. \<not> is_space c" s] by simp
    with 1 have "Q s'" by blast
    from space [OF t w this] s show ?thesis by simp
  qed
qed

lemma set_re_sub: "set (re_sub p [] s) \<subseteq> set s"
proof (induction p "[]::pystr" s rule: re_sub.induct)
  case (1 p)
  then show ?case by simp
next
  case (2 p c cs)
  show ?case
  proof (cases "re_match p (c # cs)")
    case None
    with 2 show ?thesis by auto
  next
    case (Some r)
    have "set r \<subseteq> set (c # cs)"
      by (rule set_mono_suffix [OF re_match_suffix [OF Some]])
    with 2 Some show ?thesis by auto
  qed
qed

lemma re_search_tokens:
  "word_pattern p \<Longrightarrow> re_match p [] = None \<Longrightarrow>
   re_search p s = (\<exists>t \<in> set (tokens s). re_search p t)"
proof (induction s rule: space_induct)
  case (word t)
  then show ?case by (simp add: tokens_word)
next
  case (space t w s)
  then show ?case by (auto simp: re_search_extend tokens_append tokens_word)
qed

lemma tokens_re_sub:
  "word_pattern p \<Longrightarrow> tokens (re_sub p [] s) = map (re_sub p []) (tokens s)"
proof (induction s rule: space_induct)
  case (word t)
  then have "\<forall>c \<in> set (re_sub p [] t). \<not> is_space c"
    using set_re_sub [of p t] by auto
  with word show ?case by (simp add: tokens_word)
next
  case (space t w s)
  then have "\<forall>c \<in> set (re_sub p [] t). \<not> is_space c"
    using set_re_sub [of p t] by auto
  with space show ?case by (simp add: re_sub_extend tokens_append tokens_word)
qed

lemma set_strip: "set (strip s) \<subseteq> set s"
proof -
  have "set (strip s) \<subseteq> set (dropWhile is_space s)"
    unfolding strip_def using set_dropWhileD [of _ is_space "rev (dropWhile is_space s)"] by auto
  also have "\<dots> \<subseteq> set s" by (auto dest: set_dropWhileD)
  finally show ?thesis .
qed

lemma accepts_Space: "accepts Space = is_space"
  by (rule ext) simp

lemma accepts_NonSpace: "accepts NonSpace = (\<lambda>c. \<not> is_space c)"
  by (rule ext) simp

lemma re_match_whitespace:
  "re_match whitespace_pattern s =
     (if s \<noteq> [] \<and> is_space (hd s) then Some (dropWhile is_space s) else None)"
  unfolding whitespace_pattern_def re_match_at_least accepts_Space
  by (cases s) auto

lemma whitespace_sub_spaces:
  "c \<in> set (re_sub whitespace_pattern (str '' '') s) \<Longrightarrow> is_space c \<Longrightarrow> c = 32"
proof (induction whitespace_pattern "str '' ''" s rule: re_sub.induct)
  case 1
  then show ?case by simp
next
  case (2 x xs)
  show ?case
  proof (cases "is_space x")
    case True
    then have m: "re_match whitespace_pattern (x # xs) = Some (dropWhile is_space xs)"
      by (simp add: re_match_whitespace)
    have l: "length (dropWhile is_space xs) \<le> length xs" by (rule length_dropWhile_le)
    from 2(4) m l have "c \<in> set (str '' '') \<or> c \<in> set (re_sub whitespace_pattern (str '' '') (dropWhile is_space xs))"
      by simp
    then show ?thesis
    proof
      assume "c \<in> set (str '' '')"
      then show ?thesis by (simp add: str_def)
    next
      assume "c \<in> set (re_sub whitespace_pattern (str '' '') (dropWhile is_space xs))"
      with 2(2) [OF m l] 2(5) show ?thesis by simp
    qed
  next
    case False
    then have m: "re_match whitespace_pattern (x # xs) = None"
      by (simp add: re_match_whitespace)
    with 2(4) False 2(5) have "c \<in> set (re_sub whitespace_pattern (str '' '') xs)" by auto
    with 2(1) [OF m] 2(5) show ?thesis by simp
  qed
qed

subsection \<open>The email pattern on a token\<close>

text \<open>
  A greedy run followed by the rest of a pattern succeeds exactly when the rest succeeds
  after some admissible split. On a token the email pattern succeeds exactly when the token
  is email-shaped, and the match is the whole token. The same holds of the long-word
  pattern and the tokens of 50 or more characters.
\<close>

lemma re_match_greedy:
  "\<forall>c \<in> set t. accepts k c \<Longrightarrow>
   (re_match (AtLeast n k # q) t \<noteq> None) =
     (\<exists>a r. t = a @ r \<and> n \<le> length a \<and> re_match q r \<noteq> None)"
proof (induction t arbitrary: n)
  case Nil
  then show ?case by auto
next
  case (Cons c cs)
  then have c: "accepts k c" and IH: "\<And>m. (re_match (AtLeast m k # q) cs \<noteq> None) =
     (\<exists>a r. cs = a @ r \<and> m \<le> length a \<and> re_match q r \<noteq> None)"
    by auto
  show ?case
  proof
    assume l: "re_match (AtLeast n k # q) (c # cs) \<noteq> None"
    show "\<exists>a r. c # cs = a @ r \<and> n \<le> length a \<and> re_match q r \<noteq> None"
    proof (cases "re_match (AtLeast (n - 1) k # q) cs")
      case None
      with l c have "n = 0" "re_match q (c # cs) \<noteq> None" by (auto split: if_splits)
      then have "c # cs = [] @ (c # cs) \<and> n \<le> length ([]::pystr) \<and> re_match q (c # cs) \<noteq> None"
        by simp
      then show ?thesis by blast
    next
      case (Some r')
      with IH [of "n - 1"] obtain a r where "cs = a @ r" "n - 1 \<le> length a" "re_match q r \<noteq> None"
        by auto
      then have "c # cs = (c # a) @ r \<and> n \<le> length (c # a) \<and> re_match q r \<noteq> None"
        by auto
      then show ?thesis by blast
    qed
  next
    assume "\<exists>a r. c # cs = a @ r \<and> n \<le> length a \<and> re_match q r \<noteq> None"
    then obtain a r where ar: "c # cs = a @ r" "n \<le> length a" "re_match q r \<noteq> None" by blast
    show "re_match (AtLeast n k # q) (c # cs) \<noteq> None"
    proof (cases a)
      case Nil
      with ar c show ?thesis by (auto split: option.splits)
    next
      case (Cons c' a')
      with ar have "cs = a' @ r" "n - 1 \<le> length a'" by auto
      with ar(3) IH [of "n - 1"] have "re_match (AtLeast (n - 1) k # q) cs \<noteq> None" by blast
      with c show ?thesis by auto
    qed
  qed
qed

lemma re_match_greedy_result:
  "\<forall>c \<in> set t. accepts k c \<Longrightarrow>
   (\<And>r r'. suffix r t \<Longrightarrow> re_match q r = Some r' \<Longrightarrow> r' = []) \<Longrightarrow>
   re_match (AtLeast n k # q) t = Some r' \<Longrightarrow> r' = []"
proof (induction t arbitrary: n)
  case Nil
  then show ?case by (auto split: if_splits)
next
  case (Cons c cs)
  have c: "accepts k c" using Cons.prems(1) by simp
  show ?case
  proof (cases "re_match (AtLeast (n - 1) k # q) cs")
    case None
    with Cons.prems(3) c have "re_match q (c # cs) = Some r'" by (auto split: if_splits)
    with Cons.prems(2) [of "c # cs" r'] show ?thesis by simp
  next
    case (Some r1)
    with Cons.prems(3) c have r1: "r1 = r'" by simp
    have "\<And>r r'. suffix r cs \<Longrightarrow> re_match q r = Some r' \<Longrightarrow> r' = []"
      using Cons.prems(2) by (auto intro: suffix_ConsI)
    with Cons.IH [of "n - 1"] Cons.prems(1) Some r1 show ?thesis by auto
  qed
qed

lemma email_pattern_eq:
  "email_pattern = [AtLeast 1 NonSpace, One (Lit 64), AtLeast 1 NonSpace, One (Lit 46), AtLeast 1 NonSpace]"
  by (simp add: email_pattern_def)

lemma length_ge_1: "(Suc 0 \<le> length a) = (a \<noteq> [])"
  by (cases a) auto

lemma word_takeWhile:
  "\<forall>x \<in> set t. \<not> is_space x \<Longrightarrow> takeWhile (\<lambda>c. \<not> is_space c) t = t"
  by (induction t) auto

lemma word_dropWhile:
  "\<forall>x \<in> set t. \<not> is_space x \<Longrightarrow> dropWhile (\<lambda>c. \<not> is_space c) t = []"
  by (induction t) auto

lemma re_match_word_run:
  "\<forall>x \<in> set t. \<not> is_space x \<Longrightarrow>
   re_match [AtLeast n NonSpace] t = (if n \<le> length t then Some [] else None)"
  by (simp add: re_match_at_least accepts_NonSpace word_takeWhile word_dropWhile)

lemma email_tail_match:
  assumes "\<forall>x \<in> set t. \<not> is_space x"
  shows "(re_match [One (Lit 46), AtLeast 1 NonSpace] t \<noteq> None) = (\<exists>c. t = 46 # c \<and> c \<noteq> [])"
proof (cases t)
  case Nil
  then show ?thesis by simp
next
  case (Cons x xs)
  with assms have "re_match [AtLeast 1 NonSpace] xs = (if 1 \<le> length xs then Some [] else None)"
    by (intro re_match_word_run) simp
  with Cons show ?thesis by (cases xs) auto
qed

lemma email_tail_result:
  assumes "\<forall>x \<in> set t. \<not> is_space x" and "re_match [One (Lit 46), AtLeast 1 NonSpace] t = Some r"
  shows "r = []"
proof (cases t)
  case Nil
  with assms show ?thesis by simp
next
  case (Cons x xs)
  with assms have "re_match [AtLeast 1 NonSpace] xs = (if 1 \<le> length xs then Some [] else None)"
    by (intro re_match_word_run) simp
  with Cons assms(2) show ?thesis by (auto split: if_splits)
qed

lemma email_mid_match:
  assumes s: "\<forall>x \<in> set s. \<not> is_space x"
  shows "(re_match [AtLeast 1 NonSpace, One (Lit 46), AtLeast 1 NonSpace] s \<noteq> None) =
      (\<exists>b c. s = b @ 46 # c \<and> b \<noteq> [] \<and> c \<noteq> [])"
proof -
  have acc: "\<forall>x \<in> set s. accepts NonSpace x" using s by simp
  have g: "(re_match [AtLeast 1 NonSpace, One (Lit 46), AtLeast 1 NonSpace] s \<noteq> None) =
      (\<exists>b r. s = b @ r \<and> 1 \<le> length b \<and> re_match [One (Lit 46), AtLeast 1 NonSpace] r \<noteq> None)"
    by (rule re_match_greedy [OF acc])
  show ?thesis
  proof
    assume "re_match [AtLeast 1 NonSpace, One (Lit 46), AtLeast 1 NonSpace] s \<noteq> None"
    with g obtain b r where br: "s = b @ r" "1 \<le> length b"
      "re_match [One (Lit 46), AtLeast 1 NonSpace] r \<noteq> None" by blast
    from br(1) s have "\<forall>x \<in> set r. \<not> is_space x" by simp
    from email_tail_match [OF this] br(3) obtain c where "r = 46 # c" "c \<noteq> []" by blast
    moreover from br(2) have "b \<noteq> []" by auto
    ultimately show "\<exists>b c. s = b @ 46 # c \<and> b \<noteq> [] \<and> c \<noteq> []" using br(1) by blast
  next
    assume "\<exists>b c. s = b @ 46 # c \<and> b \<noteq> [] \<and> c \<noteq> []"
    then obtain b c where bc: "s = b @ 46 # c" "b \<noteq> []" "c \<noteq> []" by blast
    from bc(1) s have "\<forall>x \<in> set (46 # c). \<not> is_space x" by simp
    from email_tail_match [OF this] bc(3)
    have "re_match [One (Lit 46), AtLeast 1 NonSpace] (46 # c) \<noteq> None" by blast
    moreover from bc(2) have "1 \<le> length b" by (cases b) auto
    ultimately show "re_match [AtLeast 1 NonSpace, One (Lit 46), AtLeast 1 NonSpace] s \<noteq> None"
      using g bc(1) by blast
  qed
qed

lemma email_at_match:
  assumes s: "\<forall>x \<in> set s. \<not> is_space x"
  shows "(re_match [One (Lit 64), AtLeast 1 NonSpace, One (Lit 46), AtLeast 1 NonSpace] s \<noteq> None) =
      (\<exists>b c. s = 64 # b @ 46 # c \<and> b \<noteq> [] \<and> c \<noteq> [])"
proof (cases s)
  case Nil
  then show ?thesis by simp
next
  case (Cons x xs)
  with s have "\<forall>x \<in> set xs. \<not> is_space x" by simp
  from email_mid_match [OF this] Cons show ?thesis by auto
qed

lemma email_match_word:
  assumes w: "\<forall>x \<in> set t. \<not> is_space x"
  shows "(re_match email_pattern t \<noteq> None) = email_shaped t"
proof -
  have acc: "\<forall>x \<in> set t. accepts NonSpace x" using w by simp
  have g: "(re_match email_pattern t \<noteq> None) =
      (\<exists>a r. t = a @ r \<and> 1 \<le> length a \<and>
         re_match [One (Lit 64), AtLeast 1 NonSpace, One (Lit 46), AtLeast 1 NonSpace] r \<noteq> None)"
    unfolding email_pattern_eq by (rule re_match_greedy [OF acc])
  show ?thesis
  proof
    assume "re_match email_pattern t \<noteq> None"
    with g obtain a r where ar: "t = a @ r" "1 \<le> length a"
      "re_match [One (Lit 64), AtLeast 1 NonSpace, One (Lit 46), AtLeast 1 NonSpace] r \<noteq> None"
      by blast
    from ar(1) w have "\<forall>x \<in> set r. \<not> is_space x" by simp
    from email_at_match [OF this] ar(3) obtain b c where "r = 64 # b @ 46 # c" "b \<noteq> []" "c \<noteq> []"
      by blast
    moreover from ar(2) have "a \<noteq> []" by auto
    ultimately show "email_shaped t" unfolding email_shaped_def using w ar(1) by blast
  next
    assume "email_shaped t"
    then obtain a b c where abc: "t = a @ 64 # b @ 46 # c" "a \<noteq> []" "b \<noteq> []" "c \<noteq> []"
      unfolding email_shaped_def by blast
    from abc(1) w have "\<forall>x \<in> set (64 # b @ 46 # c). \<not> is_space x" by simp
    from email_at_match [OF this] abc(3,4)
    have "re_match [One (Lit 64), AtLeast 1 NonSpace, One (Lit 46), AtLeast 1 NonSpace]
            (64 # b @ 46 # c) \<noteq> None" by blast
    moreover from abc(2) have "1 \<le> length a" by (cases a) auto
    ultimately show "re_match email_pattern t \<noteq> None" using g abc(1) by blast
  qed
qed

lemma email_match_word_result:
  assumes w: "\<forall>x \<in> set t. \<not> is_space x" and m: "re_match email_pattern t = Some r"
  shows "r = []"
proof -
  have acc: "\<And>s. \<forall>x \<in> set s. \<not> is_space x \<Longrightarrow> \<forall>x \<in> set s. accepts NonSpace x" by simp
  have sub: "\<And>s r. suffix r s \<Longrightarrow> \<forall>x \<in> set s. \<not> is_space x \<Longrightarrow> \<forall>x \<in> set r. \<not> is_space x"
    by (auto dest: set_mono_suffix)
  have mid: "\<And>s r. \<forall>x \<in> set s. \<not> is_space x \<Longrightarrow>
      re_match [AtLeast 1 NonSpace, One (Lit 46), AtLeast 1 NonSpace] s = Some r \<Longrightarrow> r = []"
  proof -
    fix s r :: pystr
    assume s: "\<forall>x \<in> set s. \<not> is_space x"
      and "re_match [AtLeast 1 NonSpace, One (Lit 46), AtLeast 1 NonSpace] s = Some r"
    then show "r = []"
      using re_match_greedy_result [OF acc [OF s], of "[One (Lit 46), AtLeast 1 NonSpace]" 1 r]
        email_tail_result sub [OF _ s] by blast
  qed
  have at: "\<And>s r. \<forall>x \<in> set s. \<not> is_space x \<Longrightarrow>
      re_match [One (Lit 64), AtLeast 1 NonSpace, One (Lit 46), AtLeast 1 NonSpace] s = Some r \<Longrightarrow>
      r = []"
  proof -
    fix s r :: pystr
    assume s: "\<forall>x \<in> set s. \<not> is_space x"
      and m: "re_match [One (Lit 64), AtLeast 1 NonSpace, One (Lit 46), AtLeast 1 NonSpace] s = Some r"
    show "r = []"
    proof (cases s)
      case Nil
      with m show ?thesis by simp
    next
      case (Cons x xs)
      with s have xs: "\<forall>x \<in> set xs. \<not> is_space x" by simp
      from Cons m have "re_match [AtLeast 1 NonSpace, One (Lit 46), AtLeast 1 NonSpace] xs = Some r"
        by (auto split: if_splits)
      from mid [OF xs this] show ?thesis .
    qed
  qed
  show ?thesis
    using re_match_greedy_result [OF acc [OF w],
        of "[One (Lit 64), AtLeast 1 NonSpace, One (Lit 46), AtLeast 1 NonSpace]" 1 r]
      at sub [OF _ w] m unfolding email_pattern_eq by blast
qed

lemma subseq_re_sub: "subseq (re_sub p [] s) s"
proof (induction p "[]::pystr" s rule: re_sub.induct)
  case (1 p)
  then show ?case by simp
next
  case (2 p c cs)
  show ?case
  proof (cases "re_match p (c # cs)")
    case None
    with 2 show ?thesis by simp
  next
    case (Some r)
    show ?thesis
    proof (cases "length r \<le> length cs")
      case True
      have "subseq r (c # cs)" using re_match_suffix [OF Some] by (rule suffix_imp_subseq)
      with 2(2) [OF Some True] have "subseq (re_sub p [] r) (c # cs)"
        by (rule subseq_order.order_trans)
      with Some True show ?thesis by simp
    next
      case False
      with 2(3) [OF Some] Some show ?thesis by simp
    qed
  qed
qed

lemma tokens_are_words: "t \<in> set (tokens s) \<Longrightarrow> \<forall>x \<in> set t. \<not> is_space x"
proof (induction s arbitrary: t)
  case Nil
  then show ?case by simp
next
  case (Cons c cs)
  obtain a list where tk: "tokens cs = a # list"
    using tokens_not_Nil [of cs] by (cases "tokens cs") auto
  have a: "\<forall>x \<in> set a. \<not> is_space x" by (rule Cons.IH) (simp add: tk)
  have l: "\<And>t'. t' \<in> set list \<Longrightarrow> \<forall>x \<in> set t'. \<not> is_space x"
    by (rule Cons.IH) (simp add: tk)
  from Cons.prems tk have "t = [] \<or> t = a \<or> t \<in> set list \<or> (\<not> is_space c \<and> t = c # a)"
    by (auto split: if_splits)
  with a l show ?case by auto
qed

lemma email_shaped_subseq:
  assumes sub: "subseq u t" and w: "\<forall>x \<in> set t. \<not> is_space x" and u: "email_shaped u"
  shows "email_shaped t"
proof -
  from u obtain a b c where abc: "u = a @ 64 # b @ 46 # c" "a \<noteq> []" "b \<noteq> []" "c \<noteq> []"
    unfolding email_shaped_def by blast
  from sub abc(1) obtain t1 t2 where t12: "t = t1 @ t2" "subseq a t1" "subseq (64 # b @ 46 # c) t2"
    by (auto dest: list_emb_appendD)
  from t12(3) obtain t3 t4 where t34: "t2 = t3 @ 64 # t4" "subseq (b @ 46 # c) t4"
    by (auto dest: list_emb_ConsD)
  from t34(2) obtain t5 t6 where t56: "t4 = t5 @ t6" "subseq b t5" "subseq (46 # c) t6"
    by (auto dest: list_emb_appendD)
  from t56(3) obtain t7 t8 where t78: "t6 = t7 @ 46 # t8" "subseq c t8"
    by (auto dest: list_emb_ConsD)
  from t12(2) abc(2) have "t1 \<noteq> []" by auto
  moreover from t56(2) abc(3) have "t5 \<noteq> []" by auto
  moreover from t78(2) abc(4) have "t8 \<noteq> []" by auto
  moreover have "t = (t1 @ t3) @ 64 # (t5 @ t7) @ 46 # t8"
    using t12(1) t34(1) t56(1) t78(1) by simp
  ultimately have "\<exists>a b c. t = a @ 64 # b @ 46 # c \<and> a \<noteq> [] \<and> b \<noteq> [] \<and> c \<noteq> []"
    by (metis append_is_Nil_conv)
  with w show ?thesis unfolding email_shaped_def by blast
qed

lemma re_search_iff: "re_search p s = (\<exists>t. suffix t s \<and> re_match p t \<noteq> None)"
proof (induction s)
  case Nil
  then show ?case by simp
next
  case (Cons c cs)
  then show ?case by (auto simp: suffix_Cons)
qed

lemma re_sub_no_match: "\<not> re_search p s \<Longrightarrow> re_sub p repl s = s"
  by (induction s) auto

lemma email_search_word:
  assumes w: "\<forall>x \<in> set t. \<not> is_space x"
  shows "re_search email_pattern t = email_shaped t"
proof
  assume "re_search email_pattern t"
  then obtain t' where t': "suffix t' t" "re_match email_pattern t' \<noteq> None"
    unfolding re_search_iff by blast
  from t'(1) w have w': "\<forall>x \<in> set t'. \<not> is_space x" by (auto dest: set_mono_suffix)
  from t'(2) have "email_shaped t'" using email_match_word [OF w'] by blast
  with t'(1) w show "email_shaped t"
    by (intro email_shaped_subseq [of t' t]) auto
next
  assume "email_shaped t"
  then have "re_match email_pattern t \<noteq> None" using email_match_word [OF w] by blast
  then show "re_search email_pattern t" unfolding re_search_iff by blast
qed

lemma email_sub_word:
  assumes w: "\<forall>x \<in> set t. \<not> is_space x"
  shows "re_sub email_pattern [] t = (if email_shaped t then [] else t)"
proof (cases "email_shaped t")
  case True
  then obtain r where r: "re_match email_pattern t = Some r"
    using email_match_word [OF w] by auto
  then have "r = []" by (rule email_match_word_result [OF w])
  with r True show ?thesis by (cases t) auto
next
  case False
  then have "\<not> re_search email_pattern t" by (simp add: email_search_word [OF w])
  with False show ?thesis by (simp add: re_sub_no_match)
qed

lemma long_search_word:
  assumes w: "\<forall>x \<in> set t. \<not> is_space x"
  shows "re_search long_word_pattern t = (50 \<le> length t)"
proof
  assume "re_search long_word_pattern t"
  then obtain t' where t': "suffix t' t" "re_match long_word_pattern t' \<noteq> None"
    unfolding re_search_iff by blast
  from t'(1) w have w': "\<forall>x \<in> set t'. \<not> is_space x" by (auto dest: set_mono_suffix)
  from t'(2) have "50 \<le> length t'"
    unfolding long_word_pattern_def re_match_word_run [OF w'] by (simp split: if_splits)
  with t'(1) show "50 \<le> length t" using suffix_length_le [of t' t] by simp
next
  assume "50 \<le> length t"
  then have "re_match long_word_pattern t \<noteq> None"
    unfolding long_word_pattern_def re_match_word_run [OF w] by simp
  then show "re_search long_word_pattern t" unfolding re_search_iff by blast
qed

lemma long_sub_word:
  assumes w: "\<forall>x \<in> set t. \<not> is_space x"
  shows "re_sub long_word_pattern [] t = (if 50 \<le> length t then [] else t)"
proof (cases "50 \<le> length t")
  case True
  then have "re_match long_word_pattern t = Some []"
    unfolding long_word_pattern_def re_match_word_run [OF w] by simp
  with True show ?thesis by (cases t) auto
next
  case False
  then have "\<not> re_search long_word_pattern t" by (simp add: long_search_word [OF w])
  with False show ?thesis by (simp add: re_sub_no_match)
qed

subsection \<open>What the normalizer establishes\<close>

text \<open>
  The whitespace step and \<open>strip\<close> create no token. Hence no token of the output is
  email-shaped, and none has 50 or more characters.
\<close>

lemma space_induct_strong [case_names word space]:
  assumes word: "\<And>t. \<forall>c \<in> set t. \<not> is_space c \<Longrightarrow> Q t"
    and space: "\<And>t w s. \<forall>c \<in> set t. \<not> is_space c \<Longrightarrow> is_space w \<Longrightarrow>
                  (\<And>s'. length s' \<le> length s \<Longrightarrow> Q s') \<Longrightarrow> Q (t @ w # s)"
  shows "Q s"
proof (induction s rule: length_induct)
  case (1 s)
  let ?t = "takeWhile (\<lambda>c. \<not> is_space c) s"
  let ?r = "dropWhile (\<lambda>c. \<not> is_space c) s"
  have t: "\<forall>c \<in> set ?t. \<not> is_space c"
    by (auto dest: set_takeWhileD)
  show ?case
  proof (cases ?r)
    case Nil
    then have "s = ?t" by (metis append_Nil2 takeWhile_dropWhile_id)
    with word [OF t] show ?thesis by simp
  next
    case (Cons w s')
    then have w: "is_space w" using hd_dropWhile [of "\<lambda>c. \<not> is_space c" s] by auto
    have s: "s = ?t @ w # s'"
      using Cons takeWhile_dropWhile_id [of "\<lambda>c. \<not> is_space c" s] by simp
    have "length s' < length s"
      using Cons length_dropWhile_le [of "\<lambda>c. \<not> is_space c" s] by simp
    with 1 have q: "\<And>s''. length s'' \<le> length s' \<Longrightarrow> Q s''" by simp
    have "Q (?t @ w # s')" by (rule space [OF t w]) (rule q)
    then show ?thesis by (subst s)
  qed
qed

lemma whitespace_sub_word:
  "\<forall>c \<in> set t. \<not> is_space c \<Longrightarrow>
   re_sub whitespace_pattern repl (t @ rest) = t @ re_sub whitespace_pattern repl rest"
  by (induction t) (auto simp: re_match_whitespace)

lemma whitespace_sub_space:
  "is_space w \<Longrightarrow>
   re_sub whitespace_pattern repl (w # s) =
     repl @ re_sub whitespace_pattern repl (dropWhile is_space s)"
  using length_dropWhile_le [of is_space s] by (simp add: re_match_whitespace)

lemma tokens_dropWhile: "set (tokens (dropWhile is_space s)) \<subseteq> set (tokens s)"
  by (induction s) auto

lemma tokens_whitespace_sub:
  "set (tokens (re_sub whitespace_pattern (str '' '') s)) \<subseteq> set (tokens s)"
proof (induction s rule: space_induct_strong)
  case (word t)
  then show ?case using whitespace_sub_word [of t "str '' ''" "[]"] by simp
next
  case (space t w s)
  have sp: "is_space 32" by (simp add: is_space_def)
  have "re_sub whitespace_pattern (str '' '') (t @ w # s) =
      t @ re_sub whitespace_pattern (str '' '') (w # s)"
    by (rule whitespace_sub_word [OF space(1)])
  also have "re_sub whitespace_pattern (str '' '') (w # s) =
      str '' '' @ re_sub whitespace_pattern (str '' '') (dropWhile is_space s)"
    by (rule whitespace_sub_space [OF space(2)])
  also have "str '' '' = [32]" by (simp add: str_def)
  finally have "re_sub whitespace_pattern (str '' '') (t @ w # s) =
      t @ 32 # re_sub whitespace_pattern (str '' '') (dropWhile is_space s)"
    by (simp add: str_def)
  then have "tokens (re_sub whitespace_pattern (str '' '') (t @ w # s)) =
      tokens t @ tokens (re_sub whitespace_pattern (str '' '') (dropWhile is_space s))"
    using sp by (simp add: tokens_append)
  moreover have "set (tokens (re_sub whitespace_pattern (str '' '') (dropWhile is_space s)))
      \<subseteq> set (tokens (dropWhile is_space s))"
    by (rule space(3)) (rule length_dropWhile_le)
  moreover note tokens_dropWhile [of s]
  ultimately show ?case using space(2) by (auto simp: tokens_append)
qed

lemma tokens_rstrip: "set (tokens (rev (dropWhile is_space (rev s)))) \<subseteq> set (tokens s)"
proof (induction s rule: rev_induct)
  case Nil
  then show ?case by simp
next
  case (snoc x xs)
  show ?case
  proof (cases "is_space x")
    case True
    then have "tokens (xs @ [x]) = tokens xs @ [[]]"
      using tokens_append [of x xs "[]"] by simp
    with snoc True show ?thesis by auto
  next
    case False
    then show ?thesis by simp
  qed
qed

lemma tokens_strip: "set (tokens (strip s)) \<subseteq> set (tokens s)"
  unfolding strip_def using tokens_rstrip [of "dropWhile is_space s"] tokens_dropWhile [of s]
  by blast

lemma word_pattern_patterns:
  "word_pattern url_pattern" "word_pattern email_pattern" "word_pattern none_pattern"
  "word_pattern long_word_pattern"
  by (simp_all add: url_pattern_def email_pattern_def none_pattern_def long_word_pattern_def
      lits_def is_space_def)

lemma not_email_shaped_Nil: "\<not> email_shaped []"
  by (simp add: email_shaped_def)

lemma email_free_email_sub: "email_free (re_sub email_pattern [] s)"
  unfolding email_free_def
  by (auto simp: tokens_re_sub word_pattern_patterns email_sub_word tokens_are_words
      not_email_shaped_Nil)

lemma email_free_re_sub:
  assumes "word_pattern p" and "email_free s"
  shows "email_free (re_sub p [] s)"
  unfolding email_free_def
proof
  fix t assume "t \<in> set (tokens (re_sub p [] s))"
  then obtain t0 where t0: "t0 \<in> set (tokens s)" "t = re_sub p [] t0"
    using assms(1) by (auto simp: tokens_re_sub)
  from t0(1) have w: "\<forall>x \<in> set t0. \<not> is_space x" by (rule tokens_are_words)
  from t0(1) assms(2) have "\<not> email_shaped t0" by (simp add: email_free_def)
  with email_shaped_subseq [OF subseq_re_sub [of p t0] w] t0(2)
  show "\<not> email_shaped t" by blast
qed

lemma email_free_whitespace_sub:
  "email_free s \<Longrightarrow> email_free (re_sub whitespace_pattern (str '' '') s)"
  unfolding email_free_def using tokens_whitespace_sub [of s] by blast

lemma email_free_strip: "email_free s \<Longrightarrow> email_free (strip s)"
  unfolding email_free_def using tokens_strip [of s] by blast

lemma email_free_search: "email_free s = (\<not> re_search email_pattern s)"
proof -
  have "re_match email_pattern [] = None" by (simp add: email_pattern_def)
  then have "re_search email_pattern s = (\<exists>t \<in> set (tokens s). re_search email_pattern t)"
    by (rule re_search_tokens [OF word_pattern_patterns(2)])
  also have "\<dots> = (\<exists>t \<in> set (tokens s). email_shaped t)"
    using email_search_word tokens_are_words by blast
  finally show ?thesis by (simp add: email_free_def)
qed

lemma clean_text_email_free: "\<not> re_search email_pattern (clean_text x)"
proof -
  have "email_free (clean_text x)"
    unfolding clean_text_def Let_def
    by (intro email_free_strip email_free_re_sub email_free_whitespace_sub
        email_free_email_sub word_pattern_patterns)
  then show ?thesis by (simp add: email_free_search)
qed

lemma short_words_long_sub: "short_words (re_sub long_word_pattern [] s)"
  unfolding short_words_def
  by (auto simp: tokens_re_sub word_pattern_patterns long_sub_word tokens_are_words)

lemma short_words_search: "short_words s = (\<not> re_search long_word_pattern s)"
proof -
  have "re_match long_word_pattern [] = None" by (simp add: long_word_pattern_def)
  then have "re_search long_word_pattern s = (\<exists>t \<in> set (tokens s). re_search long_word_pattern t)"
    by (rule re_search_tokens [OF word_pattern_patterns(4)])
  also have "\<dots> = (\<exists>t \<in> set (tokens s). 50 \<le> length t)"
    using long_search_word tokens_are_words by blast
  finally show ?thesis by (simp add: short_words_def not_le)
qed

lemma clean_text_short_words: "\<not> re_search long_word_pattern (clean_text x)"
proof -
  have "short_words (clean_text x)"
    unfolding clean_text_def Let_def short_words_def
    using tokens_strip short_words_long_sub [unfolded short_words_def] by blast
  then show ?thesis by (simp add: short_words_search)
qed

subsection \<open>Fixed points of the steps\<close>

text \<open>
  A deleting step that keeps the length found no match, and the whitespace step keeps the
  length only when no two whitespace characters are adjacent; \<open>strip\<close> is idempotent.
\<close>

lemma re_match_Nil_None: "1 \<le> min_length p \<Longrightarrow> re_match p [] = None"
  using re_match_length [of p "[]"] by (cases "re_match p []") auto

lemma re_sub_same_length:
  "1 \<le> min_length p \<Longrightarrow> length (re_sub p [] s) = length s \<Longrightarrow> \<not> re_search p s"
proof (induction s)
  case Nil
  then show ?case by (simp add: re_match_Nil_None)
next
  case (Cons c cs)
  show ?case
  proof (cases "re_match p (c # cs)")
    case None
    with Cons show ?thesis by simp
  next
    case (Some r)
    from re_match_length [OF Some] Cons.prems(1) have r: "length r \<le> length cs" by simp
    have "length (re_sub p [] r) \<le> length r" by (rule length_re_sub) simp
    with r Some Cons.prems(2) show ?thesis by simp
  qed
qed

lemma whitespace_sub_fixed:
  "\<forall>c \<in> set s. is_space c \<longrightarrow> c = 32 \<Longrightarrow> \<not> contains [32, 32] s \<Longrightarrow>
   re_sub whitespace_pattern [32] s = s"
proof (induction s)
  case Nil
  then show ?case by simp
next
  case (Cons c cs)
  then have IH: "re_sub whitespace_pattern [32] cs = cs" by simp
  show ?case
  proof (cases "is_space c")
    case True
    with Cons.prems(1) have c: "c = 32" by simp
    with Cons.prems have "cs = [] \<or> \<not> is_space (hd cs)"
      by (cases cs) auto
    then have "dropWhile is_space cs = cs" by (cases cs) auto
    with whitespace_sub_space [OF True, of "[32]" cs] IH c show ?thesis by simp
  next
    case False
    with IH show ?thesis by (simp add: re_match_whitespace)
  qed
qed

lemma dropWhile_same_length: "length (dropWhile P xs) = length xs \<Longrightarrow> dropWhile P xs = xs"
  using length_dropWhile_le [of P "tl xs"] by (cases xs) (auto split: if_splits)

lemma dropWhile_self_hd: "dropWhile P xs = xs \<Longrightarrow> xs = [] \<or> \<not> P (hd xs)"
  using length_dropWhile_le [of P "tl xs"] by (cases xs) (auto split: if_splits)

lemma whitespace_sub_same_length:
  "length (re_sub whitespace_pattern [32] s) = length s \<Longrightarrow> \<not> contains [32, 32] s"
proof (induction s)
  case Nil
  then show ?case by simp
next
  case (Cons c cs)
  show ?case
  proof (cases "is_space c")
    case True
    let ?d = "dropWhile is_space cs"
    from Cons.prems whitespace_sub_space [OF True, of "[32]" cs]
    have l: "length (re_sub whitespace_pattern [32] ?d) = length cs" by simp
    have "length (re_sub whitespace_pattern [32] ?d) \<le> length ?d" by (rule length_re_sub) simp
    with l length_dropWhile_le [of is_space cs] have "length ?d = length cs" by simp
    then have d: "?d = cs" by (rule dropWhile_same_length)
    with l Cons.IH have "\<not> contains [32, 32] cs" by simp
    moreover from d have "cs = [] \<or> \<not> is_space (hd cs)" by (rule dropWhile_self_hd)
    then have "\<not> prefix [32, 32] (c # cs)" by (cases cs) (auto simp: is_space_def)
    ultimately show ?thesis by simp
  next
    case False
    then have "c \<noteq> 32" by (auto simp: is_space_def)
    with Cons False show ?thesis by (simp add: re_match_whitespace)
  qed
qed

lemma dropWhile_hd: "xs = [] \<or> \<not> P (hd xs) \<Longrightarrow> dropWhile P xs = xs"
  by (cases xs) auto

lemma strip_fixed:
  assumes "s = [] \<or> (\<not> is_space (hd s) \<and> \<not> is_space (last s))"
  shows "strip s = s"
proof -
  have "dropWhile is_space s = s" using assms by (intro dropWhile_hd) auto
  moreover have "dropWhile is_space (rev s) = rev s"
    using assms by (intro dropWhile_hd) (auto simp: hd_rev)
  ultimately show ?thesis by (simp add: strip_def)
qed

lemma rstrip_last:
  "rev (dropWhile is_space (rev s)) = [] \<or> \<not> is_space (last (rev (dropWhile is_space (rev s))))"
  using hd_dropWhile [of is_space "rev s"] by (auto simp: last_rev)

lemma rstrip_hd:
  "s \<noteq> [] \<Longrightarrow> \<not> is_space (hd s) \<Longrightarrow>
   rev (dropWhile is_space (rev s)) \<noteq> [] \<and> hd (rev (dropWhile is_space (rev s))) = hd s"
proof (induction s rule: rev_induct)
  case Nil
  then show ?case by simp
next
  case (snoc x xs)
  show ?case
  proof (cases xs)
    case Nil
    with snoc.prems show ?thesis by simp
  next
    case (Cons y ys)
    with snoc show ?thesis by (cases "is_space x") auto
  qed
qed

lemma strip_strip: "strip (strip s) = strip s"
proof (rule strip_fixed)
  let ?d = "dropWhile is_space s"
  show "strip s = [] \<or> (\<not> is_space (hd (strip s)) \<and> \<not> is_space (last (strip s)))"
  proof (cases "?d = []")
    case True
    have "strip s = rev (dropWhile is_space (rev ?d))" by (simp add: strip_def)
    also have "\<dots> = []" unfolding True by simp
    finally show ?thesis by simp
  next
    case False
    then have "\<not> is_space (hd ?d)" using hd_dropWhile [of is_space s] by simp
    from rstrip_hd [OF False this] rstrip_last [of ?d] this
    show ?thesis by (simp add: strip_def)
  qed
qed

lemma min_length_patterns:
  "1 \<le> min_length url_pattern" "1 \<le> min_length email_pattern" "1 \<le> min_length none_pattern"
  "1 \<le> min_length whitespace_pattern" "1 \<le> min_length long_word_pattern"
  by (simp_all add: url_pattern_def email_pattern_def none_pattern_def whitespace_pattern_def
      long_word_pattern_def lits_def)

lemma re_sub_Cons:
  "1 \<le> min_length p \<Longrightarrow>
   re_sub p repl (c # cs) =
     (case re_match p (c # cs) of None \<Rightarrow> c # re_sub p repl cs | Some r \<Rightarrow> repl @ re_sub p repl r)"
  using re_match_length [of p "c # cs"] by (auto split: option.splits)

lemma str_spaces: "str '' '' = [32]" "str ''  '' = [32, 32]"
  by (simp_all add: str_def)

lemma clean_text_unfold:
  "clean_text s =
     strip (re_sub long_word_pattern []
       (re_sub whitespace_pattern (str '' '')
         (re_sub none_pattern [] (re_sub email_pattern [] (re_sub url_pattern [] s)))))"
  by (simp add: clean_text_def)

lemma clean_text_stripped: "strip (clean_text x) = clean_text x"
  by (simp add: clean_text_unfold strip_strip)

lemma clean_text_spaces: "c \<in> set (clean_text x) \<Longrightarrow> is_space c \<Longrightarrow> c = 32"
proof -
  assume c: "c \<in> set (clean_text x)" and sp: "is_space c"
  let ?d = "re_sub whitespace_pattern (str '' '')
              (re_sub none_pattern [] (re_sub email_pattern [] (re_sub url_pattern [] x)))"
  from c have "c \<in> set (re_sub long_word_pattern [] ?d)"
    using set_strip by (auto simp: clean_text_def)
  then have "c \<in> set ?d" using set_re_sub by blast
  from this sp show "c = 32" by (rule whitespace_sub_spaces)
qed

subsection \<open>URLs, when nothing is removed as \<open>None\<close>\<close>



















section \<open>Properties of the normalizer\<close>

lemma example_clean_none: "clean_text (str ''NoNonene'') = str ''None''"
  by (simp add: clean_text_def url_pattern_def email_pattern_def none_pattern_def
      whitespace_pattern_def long_word_pattern_def lits_def is_space_def strip_def str_def)

lemma example_clean_none2: "clean_text (str ''None'') = []"
  by (simp add: clean_text_def url_pattern_def email_pattern_def none_pattern_def
      whitespace_pattern_def long_word_pattern_def lits_def is_space_def strip_def str_def)


lemma example_clean_lines: "clean_text (str ''a\<newline>b'') = str ''a b''"
  by (simp add: clean_text_def url_pattern_def email_pattern_def none_pattern_def
      whitespace_pattern_def long_word_pattern_def lits_def is_space_def strip_def str_def)


text \<open>
  C2, refuted as stated. Removing \<open>None\<close> from \<open>NoNonene\<close> leaves \<open>None\<close>, which a
  second pass removes.
\<close>

theorem clean_text_not_idempotent:
  "clean_text (clean_text (str ''NoNonene'')) \<noteq> clean_text (str ''NoNonene'')"
  unfolding example_clean_none example_clean_none2 by (simp add: str_def)

text \<open>
  C2, amended. \<open>normalize(normalize(x)) == normalize(x)\<close> holds exactly when
  \<open>normalize(x)\<close> contains no match of the URL pattern, no \<open>None\<close> and no two adjacent
  spaces. The other steps never find anything in \<open>normalize(x)\<close>: it has no email-shaped
  token, no token of 50 or more characters, no whitespace but single characters U+0020
  inside, and none at its ends.
\<close>

theorem clean_text_idempotent_iff:
  "(clean_text (clean_text x) = clean_text x) =
     (\<not> re_search url_pattern (clean_text x) \<and> \<not> re_search none_pattern (clean_text x) \<and>
      \<not> contains (str ''  '') (clean_text x))"
proof
  let ?y = "clean_text x"
  let ?a = "re_sub url_pattern [] ?y"
  let ?b = "re_sub email_pattern [] ?a"
  let ?c = "re_sub none_pattern [] ?b"
  let ?d = "re_sub whitespace_pattern (str '' '') ?c"
  let ?e = "re_sub long_word_pattern [] ?d"
  assume fixed: "clean_text ?y = ?y"
  then have "strip ?e = ?y" by (simp add: clean_text_unfold [of ?y])
  then have "length ?y = length (strip ?e)" by simp
  also have "\<dots> \<le> length ?e" by (rule length_strip)
  finally have ye: "length ?y \<le> length ?e" .
  have ed: "length ?e \<le> length ?d" by (rule length_re_sub) simp
  have dc: "length ?d \<le> length ?c" by (rule length_re_sub) (simp add: str_def)
  have cb: "length ?c \<le> length ?b" by (rule length_re_sub) simp
  have ba: "length ?b \<le> length ?a" by (rule length_re_sub) simp
  have ay: "length ?a \<le> length ?y" by (rule length_re_sub) simp
  from ye ed dc cb ba ay have "length ?a = length ?y" by linarith
  then have url: "\<not> re_search url_pattern ?y"
    by (rule re_sub_same_length [OF min_length_patterns(1)])
  then have a: "?a = ?y" by (rule re_sub_no_match)
  from ye ed dc cb ba ay have "length ?b = length ?a" by linarith
  then have "\<not> re_search email_pattern ?a"
    by (rule re_sub_same_length [OF min_length_patterns(2)])
  then have "?b = ?a" by (rule re_sub_no_match)
  with a have b: "?b = ?y" by simp
  from ye ed dc cb ba ay have "length ?c = length ?b" by linarith
  then have "\<not> re_search none_pattern ?b"
    by (rule re_sub_same_length [OF min_length_patterns(3)])
  with b have none: "\<not> re_search none_pattern ?y" by simp
  then have "re_sub none_pattern [] ?y = ?y" by (rule re_sub_no_match)
  with b have c: "?c = ?y" by simp
  from ye ed dc cb ba ay have "length ?d = length ?c" by linarith
  then have "\<not> contains [32, 32] ?c"
    unfolding str_spaces by (rule whitespace_sub_same_length)
  with c have "\<not> contains (str ''  '') ?y" by (simp add: str_spaces)
  with url none show "\<not> re_search url_pattern ?y \<and> \<not> re_search none_pattern ?y \<and>
      \<not> contains (str ''  '') ?y" by simp
next
  let ?y = "clean_text x"
  assume "\<not> re_search url_pattern ?y \<and> \<not> re_search none_pattern ?y \<and>
      \<not> contains (str ''  '') ?y"
  then have url: "\<not> re_search url_pattern ?y" and none: "\<not> re_search none_pattern ?y"
    and dbl: "\<not> contains [32, 32] ?y" by (simp_all add: str_spaces)
  have a: "re_sub url_pattern [] ?y = ?y" using url by (rule re_sub_no_match)
  have b: "re_sub email_pattern [] ?y = ?y"
    using clean_text_email_free by (rule re_sub_no_match)
  have c: "re_sub none_pattern [] ?y = ?y" using none by (rule re_sub_no_match)
  have d: "re_sub whitespace_pattern (str '' '') ?y = ?y"
    unfolding str_spaces using clean_text_spaces dbl by (intro whitespace_sub_fixed) auto
  have e: "re_sub long_word_pattern [] ?y = ?y"
    using clean_text_short_words by (rule re_sub_no_match)
  show "clean_text ?y = ?y"
    by (simp add: clean_text_unfold [of ?y] a b c d e clean_text_stripped)
qed

theorem clean_text_idempotent_iff_witness:
  "clean_text (clean_text (str ''a\<newline>b'')) = clean_text (str ''a\<newline>b'')"
proof -
  have "\<not> re_search url_pattern (str ''a b'') \<and> \<not> re_search none_pattern (str ''a b'') \<and>
      \<not> contains (str ''  '') (str ''a b'')"
    by (simp add: url_pattern_def none_pattern_def lits_def str_def)
  with clean_text_idempotent_iff [of "str ''a\<newline>b''"] show ?thesis
    unfolding example_clean_lines by blast
qed




text \<open>
  C8. For every input string, the output of \<open>clean_text\<close> contains no newline or tab:
  every whitespace character of the output is the space U+0020.
\<close>

theorem clean_text_whitespace:
  "\<forall>c \<in> set (clean_text x). is_space c \<longrightarrow> c = 32"
  using clean_text_spaces by blast

theorem clean_text_whitespace_witness:
  "32 \<in> set (clean_text (str ''a\<newline>b'')) \<and> is_space 32 \<and>
   10 \<notin> set (clean_text (str ''a\<newline>b'')) \<and> 9 \<notin> set (clean_text (str ''a\<newline>b''))"
proof -
  have m: "32 \<in> set (clean_text (str ''a\<newline>b''))"
    unfolding example_clean_lines by (simp add: str_def)
  have s: "is_space 32" "is_space 10" "is_space 9" by (simp_all add: is_space_def)
  from clean_text_whitespace [of "str ''a\<newline>b''"] m s show ?thesis by fastforce
qed

section \<open>The reference model: joining keeps the scheme and host of the base\<close>

text \<open>
  \<open>urlsplit\<close> returns a scheme of scheme characters in lower case and a network location
  without delimiters; \<open>urlunparse\<close> writes them in front of a path that starts with a
  delimiter, and splitting the result gives them back.
\<close>

lemma lower_lower: "lower (lower s) = lower s"
  by (induction s) (auto simp: lower_def)

lemma scheme_char_lower:
  "is_scheme_char c \<Longrightarrow> is_scheme_char (if 65 \<le> c \<and> c \<le> 90 then c + 32 else c)"
  by (auto simp: is_scheme_char_def is_ascii_alpha_def)

lemma alpha_lower:
  "is_ascii_alpha c \<Longrightarrow> is_ascii_alpha (if 65 \<le> c \<and> c \<le> 90 then c + 32 else c)"
  by (auto simp: is_ascii_alpha_def)

lemma good_scheme_lower:
  assumes "pre \<noteq> []" "is_ascii_alpha (hd pre)" "list_all is_scheme_char pre"
  shows "good_scheme (lower pre)"
proof -
  have "list_all is_scheme_char (lower pre)"
    using assms(3) by (induction pre) (auto simp: lower_def scheme_char_lower)
  moreover have "is_ascii_alpha (hd (lower pre))"
    using assms(1,2) by (cases pre) (auto simp: lower_def alpha_lower)
  moreover have "lower pre \<noteq> []" using assms(1) by (simp add: lower_def)
  ultimately show ?thesis by (simp add: good_scheme_def lower_lower)
qed

lemma clean_strip_url: "clean_url (strip_url u)"
  by (simp add: clean_url_def strip_url_def)

lemma split_scheme_good:
  assumes "split_scheme u [] = (s, rest)" and "s \<noteq> []"
  shows "good_scheme s"
  using assms by (auto simp: split_scheme_def has_scheme_def good_scheme_lower split: if_splits)

lemma split_scheme_clean:
  assumes "split_scheme u d = (s, rest)" and "clean_url u"
  shows "clean_url rest"
  using assms by (auto simp: split_scheme_def clean_url_def split: if_splits dest: in_set_dropD)

lemma split_netloc_good:
  assumes "split_netloc u = (n, rest)" and "n \<noteq> []" and "clean_url u"
  shows "clean_url n \<and> (\<forall>c \<in> set n. \<not> is_delim c)"
  using assms
  by (auto simp: split_netloc_def clean_url_def split: if_splits dest!: set_takeWhileD in_set_dropD)

lemma urlsplit_cases:
  assumes "urlsplit u d = Inr b"
  obtains rest rest' where "split_scheme (strip_url u) (strip_scheme d) = (scheme b, rest)"
    and "split_netloc rest = (netloc b, rest')"
    and "(91 \<in> set (netloc b)) = (93 \<in> set (netloc b))"
proof -
  obtain s rest where 1: "split_scheme (strip_url u) (strip_scheme d) = (s, rest)"
    by (cases "split_scheme (strip_url u) (strip_scheme d)")
  obtain n rest' where 2: "split_netloc rest = (n, rest')" by (cases "split_netloc rest")
  obtain u4 f4 where 3: "cut_at 35 rest' = (u4, f4)" by (cases "cut_at 35 rest'")
  obtain u5 q5 where 4: "cut_at 63 u4 = (u5, q5)" by (cases "cut_at 63 u4")
  from assms 1 2 3 4 have "(91 \<in> set n) = (93 \<in> set n)" "scheme b = s" "netloc b = n"
    by (auto simp: urlsplit_def split: if_splits)
  with 1 2 that show thesis by blast
qed

lemma strip_scheme_Nil: "strip_scheme [] = []"
  by (simp add: strip_scheme_def)

lemma urlsplit_good:
  assumes "urlsplit u [] = Inr b" and "scheme b \<noteq> []" and "netloc b \<noteq> []"
  shows "good_scheme (scheme b) \<and> good_netloc (netloc b)"
proof -
  from assms(1) obtain rest rest' where s: "split_scheme (strip_url u) [] = (scheme b, rest)"
    and n: "split_netloc rest = (netloc b, rest')"
    and br: "(91 \<in> set (netloc b)) = (93 \<in> set (netloc b))"
    by (rule urlsplit_cases) (simp add: strip_scheme_Nil)
  from s assms(2) have "good_scheme (scheme b)" by (rule split_scheme_good)
  moreover from s clean_strip_url have "clean_url rest" by (rule split_scheme_clean)
  with n assms(3) have "clean_url (netloc b) \<and> (\<forall>c \<in> set (netloc b). \<not> is_delim c)"
    by (rule split_netloc_good)
  ultimately show ?thesis using assms(3) br by (simp add: good_netloc_def)
qed

lemma std_urlparse_urlsplit:
  "std_urlparse u d = Inr p \<Longrightarrow>
   \<exists>q. urlsplit u d = Inr q \<and> scheme q = scheme p \<and> netloc q = netloc p"
  by (auto simp: std_urlparse_def split: sum.splits if_splits)

lemma urlsplit_std_urlparse:
  "urlsplit u d = Inr q \<Longrightarrow>
   \<exists>p. std_urlparse u d = Inr p \<and> scheme p = scheme q \<and> netloc p = netloc q"
  by (auto simp: std_urlparse_def)

lemma scheme_char_bounds: "is_scheme_char c \<Longrightarrow> 43 \<le> c \<and> c \<noteq> 58"
  by (auto simp: is_scheme_char_def is_ascii_alpha_def)

lemma good_scheme_chars:
  assumes "good_scheme sch"
  shows "\<forall>c \<in> set sch. 43 \<le> c \<and> c \<noteq> 58"
  using assms by (auto simp: good_scheme_def list_all_iff dest: scheme_char_bounds)

lemma strip_url_composed:
  assumes "good_scheme sch" and "clean_url nl"
  shows "strip_url (sch @ 58 # 47 # 47 # nl @ T) =
           sch @ 58 # 47 # 47 # nl @ filter (\<lambda>c. c \<noteq> 9 \<and> c \<noteq> 10 \<and> c \<noteq> 13) T"
proof -
  from assms(1) obtain x xs where sch: "sch = x # xs" by (cases sch) (auto simp: good_scheme_def)
  with good_scheme_chars [OF assms(1)] have "\<not> x \<le> 32" by auto
  with sch have "dropWhile (\<lambda>c. c \<le> 32) (sch @ 58 # 47 # 47 # nl @ T) = sch @ 58 # 47 # 47 # nl @ T"
    by simp
  moreover have "filter (\<lambda>c. c \<noteq> 9 \<and> c \<noteq> 10 \<and> c \<noteq> 13) sch = sch"
    using good_scheme_chars [OF assms(1)] by (intro filter_True) auto
  moreover have "filter (\<lambda>c. c \<noteq> 9 \<and> c \<noteq> 10 \<and> c \<noteq> 13) nl = nl"
    using assms(2) by (intro filter_True) (auto simp: clean_url_def)
  ultimately show ?thesis by (simp add: strip_url_def)
qed

lemma filter_keeps_delim:
  assumes "T = [] \<or> is_delim (hd T)"
  shows "filter (\<lambda>c. c \<noteq> 9 \<and> c \<noteq> 10 \<and> c \<noteq> 13) T = [] \<or>
         is_delim (hd (filter (\<lambda>c. c \<noteq> 9 \<and> c \<noteq> 10 \<and> c \<noteq> 13) T))"
  using assms by (cases T) (auto simp: is_delim_def)

lemma split_scheme_composed:
  assumes "good_scheme sch"
  shows "split_scheme (sch @ 58 # X) d = (sch, X)"
proof -
  have tw: "takeWhile (\<lambda>c. c \<noteq> 58) (sch @ 58 # X) = sch"
    using good_scheme_chars [OF assms] by (simp add: takeWhile_append2)
  have "has_scheme (sch @ 58 # X)"
    unfolding has_scheme_def tw using assms by (simp add: good_scheme_def)
  then show ?thesis
    unfolding split_scheme_def tw using assms by (simp add: good_scheme_def)
qed

lemma split_netloc_composed:
  assumes "\<forall>c \<in> set nl. \<not> is_delim c" and "T = [] \<or> is_delim (hd T)"
  shows "split_netloc (47 # 47 # nl @ T) = (nl, T)"
proof -
  have "takeWhile (\<lambda>c. \<not> is_delim c) (nl @ T) = nl"
    using assms by (cases T) (auto simp: takeWhile_append2)
  moreover have "dropWhile (\<lambda>c. \<not> is_delim c) (nl @ T) = T"
    using assms by (cases T) (auto simp: dropWhile_append2)
  ultimately show ?thesis by (simp add: split_netloc_def str_def)
qed

lemma urlsplit_composed:
  assumes "good_scheme sch" and "good_netloc nl" and "T = [] \<or> is_delim (hd T)"
  shows "\<exists>p. urlsplit (sch @ 58 # 47 # 47 # nl @ T) [] = Inr p \<and> scheme p = sch \<and> netloc p = nl"
proof -
  let ?T = "filter (\<lambda>c. c \<noteq> 9 \<and> c \<noteq> 10 \<and> c \<noteq> 13) T"
  from assms(2) have nl: "clean_url nl" "\<forall>c \<in> set nl. \<not> is_delim c"
    "(91 \<in> set nl) = (93 \<in> set nl)"
    by (simp_all add: good_netloc_def)
  have 1: "strip_url (sch @ 58 # 47 # 47 # nl @ T) = sch @ 58 # 47 # 47 # nl @ ?T"
    by (rule strip_url_composed [OF assms(1) nl(1)])
  have 2: "split_scheme (sch @ 58 # 47 # 47 # nl @ ?T) (strip_scheme []) = (sch, 47 # 47 # nl @ ?T)"
    by (rule split_scheme_composed [OF assms(1)])
  have 3: "split_netloc (47 # 47 # nl @ ?T) = (nl, ?T)"
    by (rule split_netloc_composed [OF nl(2) filter_keeps_delim [OF assms(3)]])
  show ?thesis
    using nl(3) by (simp add: urlsplit_def 1 2 3 cut_at_def)
qed

lemma delim_head3:
  "A = [] \<or> is_delim (hd A) \<Longrightarrow> B = [] \<or> is_delim (hd B) \<Longrightarrow> C = [] \<or> is_delim (hd C) \<Longrightarrow>
   A @ B @ C = [] \<or> is_delim (hd (A @ B @ C))"
  by (cases A; cases B; cases C) auto

lemma urlunparse_shape:
  assumes "scheme R \<noteq> []" and "netloc R \<noteq> []"
  shows "\<exists>T. urlunparse R = scheme R @ 58 # 47 # 47 # netloc R @ T \<and> (T = [] \<or> is_delim (hd T))"
proof -
  define u1 where "u1 = (if params R \<noteq> [] then path R @ str '';'' @ params R else path R)"
  define u1' where "u1' = (if u1 \<noteq> [] \<and> take 1 u1 \<noteq> str ''/'' then str ''/'' @ u1 else u1)"
  define Q where "Q = (if query R \<noteq> [] then str ''?'' @ query R else [])"
  define F where "F = (if fragment R \<noteq> [] then str ''#'' @ fragment R else [])"
  have u: "urlunparse R = scheme R @ 58 # 47 # 47 # netloc R @ (u1' @ Q @ F)"
    using assms by (simp add: urlunparse_def Let_def str_def u1_def u1'_def Q_def F_def)
  have a: "u1' = [] \<or> is_delim (hd u1')"
    unfolding u1'_def by (cases u1) (auto simp: str_def is_delim_def)
  have q: "Q = [] \<or> is_delim (hd Q)" by (simp add: Q_def str_def is_delim_def)
  have f: "F = [] \<or> is_delim (hd F)" by (simp add: F_def str_def is_delim_def)
  from u delim_head3 [OF a q f] show ?thesis by blast
qed

lemma uses_relative_netloc: "s \<in> set uses_relative \<Longrightarrow> s \<in> set uses_netloc"
  by (auto simp: uses_relative_def uses_netloc_def)

lemma std_urlparse_composed:
  assumes "good_scheme (scheme R)" and "good_netloc (netloc R)"
  shows "\<exists>p. std_urlparse (urlunparse R) [] = Inr p \<and> scheme p = scheme R \<and> netloc p = netloc R"
proof -
  from assms have ne: "scheme R \<noteq> []" "netloc R \<noteq> []"
    by (simp_all add: good_scheme_def good_netloc_def)
  from urlunparse_shape [OF ne] obtain T
    where T: "urlunparse R = scheme R @ 58 # 47 # 47 # netloc R @ T" "T = [] \<or> is_delim (hd T)"
    by blast
  from urlsplit_composed [OF assms T(2)] obtain q
    where "urlsplit (urlunparse R) [] = Inr q" "scheme q = scheme R" "netloc q = netloc R"
    unfolding T(1) by blast
  with urlsplit_std_urlparse [of "urlunparse R" "[]" q] show ?thesis by auto
qed

lemma std_urlparse_Nil: "std_urlparse [] [] = Inr p \<Longrightarrow> scheme p = []"
  by (auto simp: std_urlparse_def urlsplit_def strip_url_def strip_scheme_def split_scheme_def
      has_scheme_def split_netloc_def cut_at_def str_def split: if_splits)

lemma std_urljoin_relative:
  assumes b: "std_urlparse base [] = Inr b" and sb: "scheme b \<noteq> []" and nb: "netloc b \<noteq> []"
    and rel: "scheme b \<in> set uses_relative"
    and r: "std_urlparse c (scheme b) = Inr r" and sr: "scheme r = scheme b" and nr: "netloc r = []"
  shows "\<exists>full p. std_urljoin base c = Inr full \<and> std_urlparse full [] = Inr p \<and>
           scheme p = scheme b \<and> netloc p = netloc b"
proof -
  from std_urlparse_urlsplit [OF b] obtain q
    where q: "urlsplit base [] = Inr q" "scheme q = scheme b" "netloc q = netloc b" by blast
  with sb nb urlsplit_good [of base q] have good: "good_scheme (scheme b)" "good_netloc (netloc b)"
    by simp_all
  from b sb have base: "base \<noteq> []" using std_urlparse_Nil by blast
  show ?thesis
  proof (cases "c = []")
    case True
    with base have "std_urljoin base c = Inr base" by (simp add: std_urljoin_def)
    with b show ?thesis by blast
  next
    case False
    define r1 where "r1 = r\<lparr>netloc := netloc b\<rparr>"
    define R where "R = (if path r1 = [] \<and> params r1 = []
        then r1\<lparr>path := path b, params := params b,
                query := (if query r1 = [] then query b else query r1)\<rparr>
        else r1\<lparr>path := join_path (path b) (path r1)\<rparr>)"
    from rel have nl: "scheme b \<in> set uses_netloc" by (rule uses_relative_netloc)
    have "std_urljoin base c = Inr (urlunparse R)"
      using base False b r sr nr rel nl
      by (simp add: std_urljoin_def R_def r1_def Let_def)
    moreover have "scheme R = scheme b" "netloc R = netloc b"
      using sr by (simp_all add: R_def r1_def)
    moreover from this good std_urlparse_composed [of R]
    obtain p where "std_urlparse (urlunparse R) [] = Inr p" "scheme p = scheme b" "netloc p = netloc b"
      by auto
    ultimately show ?thesis by blast
  qed
qed

section \<open>URL resolver and page crawler\<close>

lemma collect_links_valid:
  "collect_links e u hs = Inr links \<Longrightarrow> l \<in> set links \<Longrightarrow> is_valid_url e l"
proof (induction hs arbitrary: links)
  case Nil
  then show ?case by simp
next
  case (Cons h hs')
  then show ?case
    by (auto split: sum.splits if_splits)
qed

lemma collect_links_resolved:
  "map (normalize_url e u) hs = map Inr full_urls \<Longrightarrow>
   collect_links e u hs = Inr (filter (\<lambda>l. l \<noteq> [] \<and> is_valid_url e l) full_urls)"
proof (induction hs arbitrary: full_urls)
  case Nil
  then show ?case by simp
next
  case (Cons h hs')
  then obtain f fs where fu: "full_urls = f # fs" by (cases full_urls) auto
  with Cons.prems have "normalize_url e u h = Inr f" "map (normalize_url e u) hs' = map Inr fs"
    by auto
  with Cons.IH [of fs] fu show ?case by simp
qed

subsection \<open>The example environment, evaluated\<close>

lemmas std_defs = std_urljoin_def std_urlparse_def urlsplit_def strip_url_def strip_scheme_def
  has_scheme_def split_scheme_def is_delim_def split_netloc_def urlunparse_def join_path_def
  splitparams_def cut_at_def uses_relative_def uses_netloc_def uses_params_def
  is_ascii_alpha_def is_scheme_char_def lower_def str_def Let_def

lemmas clean_defs = clean_text_def url_pattern_def email_pattern_def none_pattern_def
  whitespace_pattern_def long_word_pattern_def lits_def is_space_def strip_def

lemma example_env_sel:
  "urlparse example_env = (\<lambda>u. std_urlparse u [])"
  "urljoin example_env = std_urljoin"
  "requests_get example_env = (\<lambda>u timeout. example_get u)"
  "beautiful_soup example_env =
     (\<lambda>body. Inr \<lparr>get_text = str ''Annual Report'', hrefs = [str ''report.pdf'', str ''report.pdf'']\<rparr>)"
  "pdf_pages example_env = (\<lambda>b. Inl OtherError)"
  "google_search example_env = (\<lambda>q n. [str ''https://a.gov/page'', str ''https://b.gov/''])"
  "print example_env = utf8_print"
  "error_text example_env = (\<lambda>err. str ''failed'')"
  by (simp_all add: example_env_def std_env_def)

lemma of_char_less_surrogate: "\<not> is_surrogate (of_char c)"
proof -
  have "(of_char c :: nat) mod 256 < 256" by simp
  then have "(of_char c :: nat) < 256" by (simp only: of_char_mod_256)
  then show ?thesis unfolding is_surrogate_def by arith
qed

lemma str_no_surrogate: "\<not> list_ex is_surrogate (str s)"
  by (induction s) (simp_all add: str_def of_char_less_surrogate)

lemma nbsp_no_surrogate: "\<not> is_surrogate 160"
  by (simp add: is_surrogate_def)

lemmas print_ok = utf8_print_def str_no_surrogate nbsp_no_surrogate

lemma example_get_page: "example_get (str ''https://a.gov/page'') = Inr (html_response 200)"
  by (simp add: example_get_def)

lemma example_get_missing: "example_get (str ''https://a.gov/missing'') = Inr (html_response 404)"
  by (simp add: example_get_def) (simp add: str_def)

lemma example_get_nbsp: "example_get (160 # str ''https://a.gov/report.pdf'') = Inr pdf_response"
  by (simp add: example_get_def) (simp add: str_def)

lemma example_get_timeout:
  "example_get (str ''https://b.gov/'') = Inl Timeout"
  "example_get (str ''https://a.gov/report.pdf'') = Inl Timeout"
  by (simp_all add: example_get_def) (simp_all add: str_def)

lemma html_response_sel:
  "status_code (html_response n) = n"
  "content_type_header (html_response n) = Some (str ''text/html'')"
  "text (html_response n) = str ''<html>''"
  by (simp_all add: html_response_def)

lemma parse_page: "std_urlparse (str ''https://a.gov/page'') [] = Inr \<lparr>scheme = str ''https'', netloc = str ''a.gov'', path = str ''/page'', params = [], query = [], fragment = []\<rparr>"
  by (simp add: std_defs)
lemma parse_href: "std_urlparse (str ''report.pdf'') [] = Inr \<lparr>scheme = [], netloc = [], path = str ''report.pdf'', params = [], query = [], fragment = []\<rparr>"
  by (simp add: std_defs)
lemma parse_href_https: "std_urlparse (str ''report.pdf'') (str ''https'') = Inr \<lparr>scheme = str ''https'', netloc = [], path = str ''report.pdf'', params = [], query = [], fragment = []\<rparr>"
  by (simp add: std_defs)
lemma parse_report: "std_urlparse (str ''https://a.gov/report.pdf'') [] = Inr \<lparr>scheme = str ''https'', netloc = str ''a.gov'', path = str ''/report.pdf'', params = [], query = [], fragment = []\<rparr>"
  by (simp add: std_defs)
lemma join_report: "std_urljoin (str ''https://a.gov/page'') (str ''report.pdf'') = Inr (str ''https://a.gov/report.pdf'')"
  apply (simp add: std_urljoin_def parse_page parse_href_https)
  apply (simp add: urlunparse_def join_path_def uses_relative_def uses_netloc_def str_def)
  done
lemma href_invalid: "\<not> is_valid_url example_env (str ''report.pdf'')"
  by (simp add: is_valid_url_def example_env_sel parse_href)
lemma report_valid: "is_valid_url example_env (str ''https://a.gov/report.pdf'')"
  by (simp add: is_valid_url_def example_env_sel parse_report) (simp add: str_def)
lemma normalize_href: "normalize_url example_env (str ''https://a.gov/page'') (str ''report.pdf'') = Inr (str ''https://a.gov/report.pdf'')"
  by (simp add: normalize_url_def href_invalid example_env_sel join_report)
lemma report_downloadable: "is_downloadable (str ''https://a.gov/report.pdf'')"
  by (simp add: is_downloadable_def document_extensions_def endswith_def suffix_to_prefix lower_def str_def)
lemma html_not_document:
  "\<not> list_ex (\<lambda>ct. contains ct (lower (str ''text/html''))) document_mime_types"
  "\<not> contains (str ''text/plain'') (lower (str ''text/html''))"
  by (simp_all add: document_mime_types_def lower_def str_def)
lemma report_nonempty: "str ''https://a.gov/report.pdf'' \<noteq> []"
  by (simp add: str_def)
lemma example_try:
  "crawl_page_try example_env (str ''https://a.gov/page'') =
     Inr (str ''Annual Report'',
          [str ''https://a.gov/report.pdf'', str ''https://a.gov/report.pdf''])"
  by (simp add: crawl_page_try_def example_env_sel example_get_page raise_for_status_def
      html_response_sel html_not_document normalize_href report_valid report_downloadable
      report_nonempty)

lemma example_crawl:
  "crawl_page example_env (str ''https://a.gov/page'') =
     Inr (str ''Annual Report'',
          [str ''https://a.gov/report.pdf'', str ''https://a.gov/report.pdf''])"
  by (simp add: crawl_page_def example_try example_env_sel print_ok)

lemma example_try_timeout: "crawl_page_try example_env (str ''https://b.gov/'') = Inl Timeout"
  by (simp add: crawl_page_try_def example_env_sel example_get_timeout)

lemma example_crawl_timeout: "crawl_page example_env (str ''https://b.gov/'') = Inr ([], [])"
  by (simp add: crawl_page_def example_try_timeout example_env_sel print_ok)

lemma example_try_missing:
  "crawl_page_try example_env (str ''https://a.gov/missing'') = Inl (HTTPError 404)"
  by (simp add: crawl_page_try_def example_env_sel example_get_missing raise_for_status_def
      html_response_sel)

lemma example_crawl_missing:
  "crawl_page example_env (str ''https://a.gov/missing'') = Inr ([], [])"
  by (simp add: crawl_page_def example_try_missing example_env_sel print_ok)

lemma pdf_is_document:
  "list_ex (\<lambda>ct. contains ct (lower (str ''application/pdf''))) document_mime_types"
  by (simp add: document_mime_types_def lower_def str_def)

lemma example_try_nbsp:
  "crawl_page_try example_env (160 # str ''https://a.gov/report.pdf'') =
     Inr ([], [160 # str ''https://a.gov/report.pdf''])"
  by (simp add: crawl_page_try_def example_env_sel example_get_nbsp raise_for_status_def
      pdf_response_def pdf_is_document)

lemma example_crawl_nbsp:
  "crawl_page example_env (160 # str ''https://a.gov/report.pdf'') =
     Inr ([], [160 # str ''https://a.gov/report.pdf''])"
  by (simp add: crawl_page_def example_try_nbsp example_env_sel print_ok)

lemma parse_nbsp:
  "std_urlparse (160 # str ''https://a.gov/report.pdf'') [] =
     Inr \<lparr>scheme = [], netloc = [], path = 160 # str ''https://a.gov/report.pdf'', params = [],
       query = [], fragment = []\<rparr>"
  by (simp add: std_defs)

lemma nbsp_invalid: "\<not> is_valid_url example_env (160 # str ''https://a.gov/report.pdf'')"
  by (simp add: is_valid_url_def example_env_sel parse_nbsp)

lemma page_valid: "is_valid_url example_env (str ''https://a.gov/page'')"
  by (simp add: is_valid_url_def example_env_sel parse_page) (simp add: str_def)

lemma choices_env_sel:
  "requests_get choices_env = (\<lambda>u timeout. Inr (html_response 300))"
  "print choices_env = utf8_print"
  by (simp_all add: choices_env_def std_env_def)

lemma example_try_choices:
  "crawl_page_try choices_env u = Inr (str ''Multiple Choices'', [])"
  by (simp add: crawl_page_try_def choices_env_def std_env_def raise_for_status_def
      html_response_sel html_not_document)

lemma example_crawl_choices:
  "crawl_page choices_env (str ''https://a.gov/old'') = Inr (str ''Multiple Choices'', [])"
  by (simp add: crawl_page_def choices_env_sel print_ok example_try_choices)

lemma example_crawl_surrogate:
  "crawl_page example_env (str ''https://b.gov/'' @ [55296]) = Inl UnicodeEncodeError"
  by (simp add: crawl_page_def example_env_sel utf8_print_def is_surrogate_def)

lemma example_get_surrogate: "example_get (str ''https://b.gov/'' @ [55296]) = Inl Timeout"
  by (simp add: example_get_def) (simp add: str_def)

lemma crawl_page_returns:
  "crawl_page e u = Inr result \<Longrightarrow> crawl_page_try e u = Inr result \<or> result = ([], [])"
  by (auto simp: crawl_page_def split: sum.splits)

lemma crawl_page_try_links:
  "crawl_page_try e u = Inr (t, links) \<Longrightarrow> l \<in> set links \<Longrightarrow>
   is_valid_url e l \<or> links = [u]"
  by (auto simp: crawl_page_try_def Let_def split: sum.splits if_splits
      dest: collect_links_valid)

lemma parse_relative: "std_urlparse (str ''//b.gov/report.pdf'') [] =
    Inr \<lparr>scheme = [], netloc = str ''b.gov'', path = str ''/report.pdf'', params = [],
      query = [], fragment = []\<rparr>"
  by (simp add: std_defs)

lemma parse_relative_https: "std_urlparse (str ''//b.gov/report.pdf'') (str ''https'') =
    Inr \<lparr>scheme = str ''https'', netloc = str ''b.gov'', path = str ''/report.pdf'',
      params = [], query = [], fragment = []\<rparr>"
  by (simp add: std_defs)

lemma parse_other: "std_urlparse (str ''https://b.gov/report.pdf'') [] =
    Inr \<lparr>scheme = str ''https'', netloc = str ''b.gov'', path = str ''/report.pdf'',
      params = [], query = [], fragment = []\<rparr>"
  by (simp add: std_defs)

lemma join_relative:
  "std_urljoin (str ''https://a.gov/page'') (str ''//b.gov/report.pdf'') =
     Inr (str ''https://b.gov/report.pdf'')"
  apply (simp add: std_urljoin_def parse_page parse_relative_https)
  apply (simp add: urlunparse_def uses_relative_def uses_netloc_def str_def)
  done

lemma relative_invalid: "\<not> is_valid_url example_env (str ''//b.gov/report.pdf'')"
  by (simp add: is_valid_url_def example_env_sel parse_relative)

lemma normalize_relative:
  "normalize_url example_env (str ''https://a.gov/page'') (str ''//b.gov/report.pdf'') =
     Inr (str ''https://b.gov/report.pdf'')"
  by (simp add: normalize_url_def relative_invalid example_env_sel join_relative)

subsection \<open>Resolution\<close>

text \<open>
  C4, refuted as stated. With base \<open>https://a.gov/page\<close> the candidate
  \<open>//b.gov/report.pdf\<close> has no scheme, so it is not valid, and it resolves to
  \<open>https://b.gov/report.pdf\<close>, whose host is not the host of the base.
\<close>

theorem normalize_url_host_counterexample:
  "\<not> is_valid_url example_env (str ''//b.gov/report.pdf'') \<and>
   normalize_url example_env (str ''https://a.gov/page'') (str ''//b.gov/report.pdf'')
     = Inr (str ''https://b.gov/report.pdf'') \<and>
   urlparse example_env (str ''https://b.gov/report.pdf'') =
     Inr \<lparr>scheme = str ''https'', netloc = str ''b.gov'', path = str ''/report.pdf'',
       params = [], query = [], fragment = []\<rparr> \<and>
   urlparse example_env (str ''https://a.gov/page'') =
     Inr \<lparr>scheme = str ''https'', netloc = str ''a.gov'', path = str ''/page'',
       params = [], query = [], fragment = []\<rparr> \<and>
   str ''b.gov'' \<noteq> str ''a.gov''"
  by (simp add: relative_invalid normalize_relative example_env_sel parse_other parse_page)
    (simp add: str_def)

text \<open>
  C4, amended. \<open>normalize_url(base, candidate)\<close> returns \<open>candidate\<close> unchanged whenever
  \<open>is_valid_url(candidate)\<close> is true; whenever it is false the result is
  \<open>urljoin(base, candidate)\<close>. On the reference model of \<open>urllib.parse\<close> the returned
  URL's scheme and host equal those of \<open>base\<close> when \<open>base\<close> is an absolute URL of a scheme
  that allows relative references (http, https, ftp, ...) and the candidate carries no
  network location and no scheme other than that of \<open>base\<close>.
\<close>

theorem normalize_url_cases:
  "(is_valid_url e candidate \<longrightarrow> normalize_url e base candidate = Inr candidate) \<and>
   (\<not> is_valid_url e candidate \<longrightarrow> normalize_url e base candidate = urljoin e base candidate) \<and>
   (urlparse e = (\<lambda>u. std_urlparse u []) \<and> urljoin e = std_urljoin \<and>
    \<not> is_valid_url e candidate \<and>
    std_urlparse base [] = Inr b \<and> scheme b \<noteq> [] \<and> netloc b \<noteq> [] \<and>
    scheme b \<in> set uses_relative \<and>
    std_urlparse candidate (scheme b) = Inr r \<and> scheme r = scheme b \<and> netloc r = [] \<longrightarrow>
    (\<exists>full p. normalize_url e base candidate = Inr full \<and> urlparse e full = Inr p \<and>
       scheme p = scheme b \<and> netloc p = netloc b))"
proof (intro conjI impI)
  show "is_valid_url e candidate \<Longrightarrow> normalize_url e base candidate = Inr candidate"
    by (simp add: normalize_url_def)
  show "\<not> is_valid_url e candidate \<Longrightarrow> normalize_url e base candidate = urljoin e base candidate"
    by (simp add: normalize_url_def)
  assume a: "urlparse e = (\<lambda>u. std_urlparse u []) \<and> urljoin e = std_urljoin \<and>
    \<not> is_valid_url e candidate \<and>
    std_urlparse base [] = Inr b \<and> scheme b \<noteq> [] \<and> netloc b \<noteq> [] \<and>
    scheme b \<in> set uses_relative \<and>
    std_urlparse candidate (scheme b) = Inr r \<and> scheme r = scheme b \<and> netloc r = []"
  then have "\<exists>full p. std_urljoin base candidate = Inr full \<and> std_urlparse full [] = Inr p \<and>
      scheme p = scheme b \<and> netloc p = netloc b"
    by (intro std_urljoin_relative [of base b candidate r]) simp_all
  with a show "\<exists>full p. normalize_url e base candidate = Inr full \<and> urlparse e full = Inr p \<and>
      scheme p = scheme b \<and> netloc p = netloc b"
    by (simp add: normalize_url_def)
qed

theorem normalize_url_cases_witness:
  "is_valid_url example_env (str ''https://a.gov/report.pdf'') \<and>
   normalize_url example_env (str ''https://a.gov/page'') (str ''https://a.gov/report.pdf'')
     = Inr (str ''https://a.gov/report.pdf'') \<and>
   \<not> is_valid_url example_env (str ''report.pdf'') \<and>
   normalize_url example_env (str ''https://a.gov/page'') (str ''report.pdf'')
     = urljoin example_env (str ''https://a.gov/page'') (str ''report.pdf'') \<and>
   (\<exists>full p. normalize_url example_env (str ''https://a.gov/page'') (str ''report.pdf'') = Inr full \<and>
      urlparse example_env full = Inr p \<and> scheme p = str ''https'' \<and> netloc p = str ''a.gov'')"
proof -
  let ?b = "\<lparr>scheme = str ''https'', netloc = str ''a.gov'', path = str ''/page'', params = [],
    query = [], fragment = []\<rparr>"
  let ?r = "\<lparr>scheme = str ''https'', netloc = [], path = str ''report.pdf'', params = [],
    query = [], fragment = []\<rparr>"
  have h: "urlparse example_env = (\<lambda>u. std_urlparse u []) \<and> urljoin example_env = std_urljoin \<and>
    \<not> is_valid_url example_env (str ''report.pdf'') \<and>
    std_urlparse (str ''https://a.gov/page'') [] = Inr ?b \<and> scheme ?b \<noteq> [] \<and> netloc ?b \<noteq> [] \<and>
    scheme ?b \<in> set uses_relative \<and>
    std_urlparse (str ''report.pdf'') (scheme ?b) = Inr ?r \<and> scheme ?r = scheme ?b \<and> netloc ?r = []"
    by (simp add: example_env_sel href_invalid parse_page parse_href_https uses_relative_def)
      (simp add: str_def)
  note t1 = normalize_url_cases [of example_env "str ''https://a.gov/report.pdf''" "str ''https://a.gov/page''"]
  note t2 = normalize_url_cases [of example_env "str ''report.pdf''" "str ''https://a.gov/page''" ?b ?r]
  from t1 report_valid
  have 1: "normalize_url example_env (str ''https://a.gov/page'') (str ''https://a.gov/report.pdf'')
      = Inr (str ''https://a.gov/report.pdf'')" by blast
  from t2 href_invalid
  have 2: "normalize_url example_env (str ''https://a.gov/page'') (str ''report.pdf'')
      = urljoin example_env (str ''https://a.gov/page'') (str ''report.pdf'')" by blast
  from t2 h
  have "\<exists>full p. normalize_url example_env (str ''https://a.gov/page'') (str ''report.pdf'') = Inr full \<and>
      urlparse example_env full = Inr p \<and> scheme p = scheme ?b \<and> netloc p = netloc ?b" by blast
  then have 3: "\<exists>full p. normalize_url example_env (str ''https://a.gov/page'') (str ''report.pdf'') = Inr full \<and>
      urlparse example_env full = Inr p \<and> scheme p = str ''https'' \<and> netloc p = str ''a.gov''" by simp
  from 1 2 3 report_valid href_invalid show ?thesis by blast
qed

subsection \<open>Document links\<close>

text \<open>
  C5, refuted as stated. The page of the example links twice to \<open>report.pdf\<close>, and the
  list of document links holds \<open>https://a.gov/report.pdf\<close> twice.
\<close>

theorem crawl_page_duplicates_counterexample:
  "crawl_page example_env (str ''https://a.gov/page'') =
     Inr (str ''Annual Report'',
          [str ''https://a.gov/report.pdf'', str ''https://a.gov/report.pdf'']) \<and>
   \<not> distinct [str ''https://a.gov/report.pdf'', str ''https://a.gov/report.pdf'']"
  by (simp add: example_crawl)

text \<open>
  C5, amended. For every fetched HTML page whose hrefs all resolve, the document links are
  the resolved hrefs that are non-empty, valid and end in a document extension, in document
  order and one for each anchor: a URL linked twice is listed twice. The page is fetched
  once the log line of \<open>crawl_page\<close> is printed, and the result is then the text of the
  page with these links.
\<close>

theorem crawl_page_document_links:
  assumes "requests_get e u 15 = Inr r"
    and "raise_for_status r = Inr ()"
    and "\<not> list_ex (\<lambda>ct. contains ct (lower (case content_type_header r of None \<Rightarrow> [] | Some v \<Rightarrow> v)))
            document_mime_types"
    and "\<not> contains (str ''text/plain'')
            (lower (case content_type_header r of None \<Rightarrow> [] | Some v \<Rightarrow> v))"
    and "beautiful_soup e (text r) = Inr page"
    and "map (normalize_url e u) (hrefs page) = map Inr full_urls"
  shows "crawl_page e u =
           (case print e (str ''Crawling '' @ u) of
              Inl err \<Rightarrow> Inl err
            | Inr ok \<Rightarrow>
                Inr (get_text page,
                     filter (\<lambda>l. l \<noteq> [] \<and> is_valid_url e l \<and> is_downloadable l) full_urls))"
proof -
  have "collect_links e u (hrefs page) =
          Inr (filter (\<lambda>l. l \<noteq> [] \<and> is_valid_url e l) full_urls)"
    by (rule collect_links_resolved [OF assms(6)])
  with assms(1-5) have "crawl_page_try e u =
      Inr (get_text page,
           filter is_downloadable (filter (\<lambda>l. l \<noteq> [] \<and> is_valid_url e l) full_urls))"
    by (simp add: crawl_page_try_def Let_def)
  moreover have "filter is_downloadable (filter (\<lambda>l. l \<noteq> [] \<and> is_valid_url e l) full_urls) =
      filter (\<lambda>l. l \<noteq> [] \<and> is_valid_url e l \<and> is_downloadable l) full_urls"
    by (induction full_urls) auto
  ultimately show ?thesis
    by (simp add: crawl_page_def split: sum.splits)
qed

theorem crawl_page_document_links_witness:
  "crawl_page example_env (str ''https://a.gov/page'') =
     Inr (str ''Annual Report'',
          filter (\<lambda>l. l \<noteq> [] \<and> is_valid_url example_env l \<and> is_downloadable l)
            [str ''https://a.gov/report.pdf'', str ''https://a.gov/report.pdf''])"
proof -
  have "crawl_page example_env (str ''https://a.gov/page'') =
     (case print example_env (str ''Crawling '' @ str ''https://a.gov/page'') of
        Inl err \<Rightarrow> Inl err
      | Inr ok \<Rightarrow>
          Inr (get_text \<lparr>get_text = str ''Annual Report'',
                          hrefs = [str ''report.pdf'', str ''report.pdf'']\<rparr>,
               filter (\<lambda>l. l \<noteq> [] \<and> is_valid_url example_env l \<and> is_downloadable l)
                 [str ''https://a.gov/report.pdf'', str ''https://a.gov/report.pdf'']))"
  proof (rule crawl_page_document_links)
  show "requests_get example_env (str ''https://a.gov/page'') 15 = Inr (html_response 200)"
    by (simp add: example_env_sel example_get_page)
  show "raise_for_status (html_response 200) = Inr ()"
    by (simp add: raise_for_status_def html_response_sel)
  show "\<not> list_ex (\<lambda>ct. contains ct
          (lower (case content_type_header (html_response 200) of
                    None \<Rightarrow> [] | Some v \<Rightarrow> v))) document_mime_types"
    by (simp add: html_response_sel html_not_document)
  show "\<not> contains (str ''text/plain'')
          (lower (case content_type_header (html_response 200) of
                    None \<Rightarrow> [] | Some v \<Rightarrow> v))"
    by (simp add: html_response_sel html_not_document)
  show "beautiful_soup example_env (text (html_response 200)) =
      Inr \<lparr>get_text = str ''Annual Report'', hrefs = [str ''report.pdf'', str ''report.pdf'']\<rparr>"
    by (simp add: example_env_sel)
  show "map (normalize_url example_env (str ''https://a.gov/page''))
          (hrefs \<lparr>get_text = str ''Annual Report'',
                   hrefs = [str ''report.pdf'', str ''report.pdf'']\<rparr>) =
        map Inr [str ''https://a.gov/report.pdf'', str ''https://a.gov/report.pdf'']"
      by (simp add: normalize_href)
  qed
  then show ?thesis
    by (simp add: example_env_sel print_ok)
qed

text \<open>
  C9, refuted as stated. When the response is itself a document, the list holds the crawled
  URL as it was given, with no validity check. \<open>requests\<close> strips leading whitespace from
  a URL and \<open>urlparse\<close> does not strip a no-break space: the URL
  \<open>https://a.gov/report.pdf\<close> written after one is fetched, is answered with a PDF and is
  returned as the one document link, and \<open>is_valid_url\<close> rejects it.
\<close>

theorem crawl_page_links_valid_counterexample:
  "crawl_page example_env (160 # str ''https://a.gov/report.pdf'') =
     Inr ([], [160 # str ''https://a.gov/report.pdf'']) \<and>
   \<not> is_valid_url example_env (160 # str ''https://a.gov/report.pdf'')"
  by (simp add: example_crawl_nbsp nbsp_invalid)

text \<open>
  C9, amended. Every URL in the document-link list returned by \<open>crawl_page\<close> satisfies
  \<open>is_valid_url\<close>, unless the response is itself a document and the list is the crawled
  URL alone: a resolved href that fails the validity gate is never emitted, and every URL
  of the list is valid whenever the crawled URL is.
\<close>

theorem crawl_page_links_valid:
  "crawl_page e u = Inr (page_text, links) \<longrightarrow>
     (\<forall>l \<in> set links. is_valid_url e l \<or> links = [u]) \<and>
     (is_valid_url e u \<longrightarrow> (\<forall>l \<in> set links. is_valid_url e l))"
proof (intro impI)
  assume r: "crawl_page e u = Inr (page_text, links)"
  have 1: "is_valid_url e l \<or> links = [u]" if "l \<in> set links" for l
  proof -
    from crawl_page_returns [OF r] that have "crawl_page_try e u = Inr (page_text, links)"
      by auto
    from crawl_page_try_links [OF this that] show ?thesis .
  qed
  have 2: "is_valid_url e l" if "is_valid_url e u" "l \<in> set links" for l
  proof (cases "links = [u]")
    case True
    with that show ?thesis by simp
  next
    case False
    with 1 [OF that(2)] show ?thesis by simp
  qed
  from 1 2 show "(\<forall>l \<in> set links. is_valid_url e l \<or> links = [u]) \<and>
      (is_valid_url e u \<longrightarrow> (\<forall>l \<in> set links. is_valid_url e l))"
    by blast
qed

theorem crawl_page_links_valid_witness:
  "crawl_page example_env (str ''https://a.gov/page'') =
     Inr (str ''Annual Report'',
          [str ''https://a.gov/report.pdf'', str ''https://a.gov/report.pdf'']) \<and>
   is_valid_url example_env (str ''https://a.gov/page'') \<and>
   str ''https://a.gov/report.pdf''
     \<in> set [str ''https://a.gov/report.pdf'', str ''https://a.gov/report.pdf''] \<and>
   [str ''https://a.gov/report.pdf'', str ''https://a.gov/report.pdf'']
     \<noteq> [str ''https://a.gov/page''] \<and>
   is_valid_url example_env (str ''https://a.gov/report.pdf'')"
proof -
  have m: "str ''https://a.gov/report.pdf''
      \<in> set [str ''https://a.gov/report.pdf'', str ''https://a.gov/report.pdf'']"
    by simp
  have n: "[str ''https://a.gov/report.pdf'', str ''https://a.gov/report.pdf'']
      \<noteq> [str ''https://a.gov/page'']"
    by simp
  from crawl_page_links_valid [of example_env "str ''https://a.gov/page''" "str ''Annual Report''"
      "[str ''https://a.gov/report.pdf'', str ''https://a.gov/report.pdf'']"]
    example_crawl m n page_valid
  show ?thesis by blast
qed

text \<open>
  C6, refuted as stated, on both of its parts. A final response with status 300 is not a
  2xx response, and \<open>raise_for_status\<close> raises for 4xx and 5xx only: the page is parsed
  and its text returned. And \<open>crawl_page\<close> raises when the fetch fails and a log line
  cannot be printed: with a standard output in UTF-8, the URL \<open>https://b.gov/\<close> followed
  by the lone surrogate U+D800, whose fetch times out, ends in \<open>UnicodeEncodeError\<close>,
  raised by the \<open>print\<close> that stands before the \<open>try\<close>.
\<close>

theorem crawl_page_non_2xx_counterexample:
  "requests_get choices_env (str ''https://a.gov/old'') 15 = Inr (html_response 300) \<and>
   \<not> (200 \<le> status_code (html_response 300) \<and> status_code (html_response 300) < 300) \<and>
   crawl_page choices_env (str ''https://a.gov/old'') = Inr (str ''Multiple Choices'', []) \<and>
   str ''Multiple Choices'' \<noteq> [] \<and>
   requests_get example_env (str ''https://b.gov/'' @ [55296]) 15 = Inl Timeout \<and>
   crawl_page example_env (str ''https://b.gov/'' @ [55296]) = Inl UnicodeEncodeError"
  by (simp add: example_crawl_choices html_response_sel example_crawl_surrogate example_env_sel
      example_get_surrogate choices_env_sel)
    (simp add: str_def)

text \<open>
  C6, amended. For every URL and every failure of the HTTP fetch, that is an exception
  of \<open>requests.get\<close> (timeout, connection error) or a response with a 4xx or 5xx status,
  \<open>crawl_page\<close> returns empty page text and an empty list of document links, in every run
  in which its two log lines, \<open>Crawling ...\<close> before the fetch and \<open>Error crawling ...\<close>
  in the handler, are printed.
\<close>

theorem crawl_page_fetch_failure:
  "(print e (str ''Crawling '' @ u) = Inr () \<and>
    requests_get e u 15 = Inl err \<and>
    print e (str ''Error crawling '' @ u @ str '': '' @ error_text e err) = Inr () \<longrightarrow>
      crawl_page e u = Inr ([], [])) \<and>
   (print e (str ''Crawling '' @ u) = Inr () \<and>
    requests_get e u 15 = Inr r \<and> 400 \<le> status_code r \<and> status_code r < 600 \<and>
    print e (str ''Error crawling '' @ u @ str '': '' @
               error_text e (HTTPError (status_code r))) = Inr () \<longrightarrow>
      crawl_page e u = Inr ([], []))"
  by (simp add: crawl_page_def crawl_page_try_def raise_for_status_def)

theorem crawl_page_fetch_failure_witness:
  "print example_env (str ''Crawling '' @ str ''https://b.gov/'') = Inr () \<and>
   requests_get example_env (str ''https://b.gov/'') 15 = Inl Timeout \<and>
   print example_env (str ''Error crawling '' @ str ''https://b.gov/'' @ str '': '' @
                        error_text example_env Timeout) = Inr () \<and>
   crawl_page example_env (str ''https://b.gov/'') = Inr ([], []) \<and>
   print example_env (str ''Crawling '' @ str ''https://a.gov/missing'') = Inr () \<and>
   requests_get example_env (str ''https://a.gov/missing'') 15 = Inr (html_response 404) \<and>
   400 \<le> status_code (html_response 404) \<and> status_code (html_response 404) < 600 \<and>
   print example_env (str ''Error crawling '' @ str ''https://a.gov/missing'' @ str '': '' @
                        error_text example_env (HTTPError (status_code (html_response 404))))
     = Inr () \<and>
   crawl_page example_env (str ''https://a.gov/missing'') = Inr ([], [])"
proof -
  have p: "print example_env (str ''Crawling '' @ str ''https://b.gov/'') = Inr ()"
    "print example_env (str ''Error crawling '' @ str ''https://b.gov/'' @ str '': '' @
       error_text example_env Timeout) = Inr ()"
    "print example_env (str ''Crawling '' @ str ''https://a.gov/missing'') = Inr ()"
    "print example_env (str ''Error crawling '' @ str ''https://a.gov/missing'' @ str '': '' @
       error_text example_env (HTTPError (status_code (html_response 404)))) = Inr ()"
    by (simp_all add: example_env_sel print_ok)
  have t: "requests_get example_env (str ''https://b.gov/'') 15 = Inl Timeout"
    by (simp add: example_env_sel example_get_timeout)
  have m: "requests_get example_env (str ''https://a.gov/missing'') 15 = Inr (html_response 404)"
    by (simp add: example_env_sel example_get_missing)
  have s: "400 \<le> status_code (html_response 404) \<and> status_code (html_response 404) < 600"
    by (simp add: html_response_sel)
  from crawl_page_fetch_failure [of example_env "str ''https://b.gov/''" Timeout]
    crawl_page_fetch_failure [of example_env "str ''https://a.gov/missing''" _ "html_response 404"]
    p t m s show ?thesis by blast
qed
section \<open>Extraction and orchestration\<close>



subsection \<open>The example run\<close>

lemma example_pdf_fails: "extract_pdf_text example_env (str ''https://a.gov/report.pdf'') = []"
  by (simp add: extract_pdf_text_def download_def example_env_sel example_get_timeout)

lemma report_ends_pdf: "endswith (lower (str ''https://a.gov/report.pdf'')) (str ''.pdf'')"
  by (simp add: endswith_def suffix_to_prefix lower_def str_def)

lemma example_extract_report:
  "extract_document_text example_env (str ''https://a.gov/report.pdf'') = []"
  by (simp add: extract_document_text_def report_ends_pdf example_pdf_fails)

lemma example_clean_text: "clean_text (str ''Annual Report'') = str ''Annual Report''"
  by (simp add: clean_defs str_def)

lemma clean_text_empty: "clean_text [] = []"
  by (simp add: clean_text_def strip_def)

lemma example_process_page:
  "process_url example_env (str ''https://a.gov/page'') =
     Inr \<lparr>url = str ''https://a.gov/page'', content = str ''Annual Report''\<rparr>"
  by (simp add: process_url_def combined_text_def example_crawl example_extract_report
      example_clean_text) (simp add: str_def)

lemma example_process_timeout:
  "process_url example_env (str ''https://b.gov/'') =
     Inr \<lparr>url = str ''https://b.gov/'', content = []\<rparr>"
  by (simp add: process_url_def combined_text_def example_crawl_timeout clean_text_empty)

lemma example_main:
  "main example_env q n =
     Inr [\<lparr>url = str ''https://a.gov/page'', content = str ''Annual Report''\<rparr>]"
  by (simp add: main_def example_env_sel example_process_page example_process_timeout)
    (simp add: str_def)

lemma gather_results: "gather tasks = Inr results \<Longrightarrow> tasks = map Inr results"
proof (induction tasks arbitrary: results)
  case Nil
  then show ?case by simp
next
  case (Cons task tasks')
  then show ?case by (auto split: sum.splits)
qed

lemma process_url_content:
  "process_url e u = Inr r \<Longrightarrow>
   \<exists>t. combined_text e u = Inr t \<and> content r = take 10000 (clean_text t)"
  by (auto simp: process_url_def split: sum.splits)

text \<open>
  C1. For every record in the sequence returned by \<open>main\<close>, the content is non-empty and
  has at most 10,000 characters: the record was built by \<open>process_url\<close> for a seed URL
  from the normalized text cut to 10,000 characters, and the records with empty content
  were removed.
\<close>

theorem main_content_bounds:
  "main e q n = Inr results \<longrightarrow>
     (\<forall>r \<in> set results. content r \<noteq> [] \<and> length (content r) \<le> 10000 \<and>
        (\<exists>u \<in> set (google_search e q n).
           process_url e u = Inr r \<and>
           (\<exists>t. combined_text e u = Inr t \<and> content r = take 10000 (clean_text t))))"
proof (intro impI ballI)
  fix r
  assume m: "main e q n = Inr results" and r: "r \<in> set results"
  from m obtain records where g: "gather (map (process_url e) (google_search e q n)) = Inr records"
    and f: "results = filter (\<lambda>r. content r \<noteq> []) records"
    by (auto simp: main_def Let_def split: sum.splits)
  from r f have c: "content r \<noteq> []" and "r \<in> set records" by auto
  then have "Inr r \<in> set (map (process_url e) (google_search e q n))"
    using gather_results [OF g] by simp
  then obtain u where u: "u \<in> set (google_search e q n)" "process_url e u = Inr r"
    by auto
  from process_url_content [OF u(2)] obtain t
    where t: "combined_text e u = Inr t" "content r = take 10000 (clean_text t)"
    by blast
  from t(2) have "length (content r) \<le> 10000" by simp
  with c u t show "content r \<noteq> [] \<and> length (content r) \<le> 10000 \<and>
      (\<exists>u \<in> set (google_search e q n).
         process_url e u = Inr r \<and>
         (\<exists>t. combined_text e u = Inr t \<and> content r = take 10000 (clean_text t)))"
    by blast
qed

theorem main_content_bounds_witness:
  "main example_env (str ''climate report'') 10 =
     Inr [\<lparr>url = str ''https://a.gov/page'', content = str ''Annual Report''\<rparr>] \<and>
   content \<lparr>url = str ''https://a.gov/page'', content = str ''Annual Report''\<rparr> \<noteq> [] \<and>
   length (content \<lparr>url = str ''https://a.gov/page'', content = str ''Annual Report''\<rparr>)
     \<le> 10000"
proof -
  have m: "main example_env (str ''climate report'') 10 =
      Inr [\<lparr>url = str ''https://a.gov/page'', content = str ''Annual Report''\<rparr>]"
    by (simp add: example_main)
  have r: "\<lparr>url = str ''https://a.gov/page'', content = str ''Annual Report''\<rparr>
      \<in> set [\<lparr>url = str ''https://a.gov/page'', content = str ''Annual Report''\<rparr>]"
    by simp
  from main_content_bounds [of example_env "str ''climate report''" 10
      "[\<lparr>url = str ''https://a.gov/page'', content = str ''Annual Report''\<rparr>]"] m r
  show ?thesis by blast
qed
end
